theory Spec2Isabelle
  imports Main
begin

section \<open>Data model of main.go\<close>

text \<open>
  Go strings are byte sequences; they are modelled as \<open>string\<close> (lists of 8-bit
  characters). Go's \<open>error\<close> values are modelled by their message. Slices of pointers
  (\<open>[]*graphqlIssue\<close>, \<open>[]*comment\<close>) are modelled as lists of values: the JSON
  decoder fills them from objects, never from \<open>null\<close> elements. The diagnostic
  \<open>fmt.Printf\<close> lines written to standard output are not part of the model.
\<close>

type_synonym error = string

type_synonym time = int

record label =
  Name :: string

type_synonym labels = "label list"

record actor =
  Login :: string

record comment =
  Author :: actor
  Body :: string
  UpdatedAt :: time

type_synonym comments = "comment list"

record restIssue =
  ID :: string
  Title :: string
  Body :: string
  Author :: actor
  Labels :: labels

text \<open>The nested structs \<open>Labels.Nodes\<close> and \<open>Comments.Nodes\<close> are flattened.\<close>

record graphqlIssue =
  ID :: string
  URL :: string
  Title :: string
  Body :: string
  Author :: actor
  Labels :: labels
  Comments :: comments

record issue =
  id' :: string
  title :: string
  labels :: labels

text \<open>
  The fields \<open>Changes\<close> and \<open>Comment\<close> of \<open>event\<close> are decoded but never read; they
  are left out. The pointers \<open>Issue\<close> and \<open>Label\<close> may be nil.
\<close>

record event =
  Name :: string
  Action :: string
  Issue :: "restIssue option"
  Label :: "label option"

text \<open>
  A compiled \<open>*regexp.Regexp\<close>, as far as the program uses it: its source text
  (method \<open>String\<close>) and its match predicate (method \<open>MatchString\<close>).
\<close>

record regexp =
  String :: string
  MatchString :: "string \<Rightarrow> bool"

record options =
  user :: string
  event :: event
  summaryCommentRegex :: regexp

text \<open>
  Functions of the Go standard library and of the process environment that the program
  calls and that are taken as parameters: the \<open>%q\<close> verb of \<open>fmt.Sprintf\<close>
  (\<open>strconv.Quote\<close>), \<open>url.QueryEscape\<close> (used by \<open>url.Values.Encode\<close>),
  \<open>time.Time.Format\<close> with the layout \<open>2006-01-02 15:04:05 MST\<close>, and the environment
  variable \<open>GITHUB_SERVER_URL\<close>.
\<close>

record platform =
  quote :: "string \<Rightarrow> string"
  queryEscape :: "string \<Rightarrow> string"
  formatTime :: "time \<Rightarrow> string"
  GITHUB_SERVER_URL :: string

section \<open>Label sets\<close>

fun contains :: "labels \<Rightarrow> string \<Rightarrow> bool" where
  "contains [] s = False"
| "contains (n # l) s = (if label.Name n = s then True else contains l s)"

fun nonSummaryLabelsLoop :: "labels \<Rightarrow> labels \<Rightarrow> labels" where
  "nonSummaryLabelsLoop ls [] = ls"
| "nonSummaryLabelsLoop ls (lb # l) =
     nonSummaryLabelsLoop (if label.Name lb \<noteq> ''summary'' then ls @ [lb] else ls) l"

definition nonSummaryLabels :: "labels \<Rightarrow> labels" where
  "nonSummaryLabels l = nonSummaryLabelsLoop [] l"

text \<open>\<open>strings.Join\<close>.\<close>

fun Join :: "string list \<Rightarrow> string \<Rightarrow> string" where
  "Join [] sep = []"
| "Join [x] sep = x"
| "Join (x # y # zs) sep = x @ sep @ Join (y # zs) sep"

fun queryFilterLoop :: "platform \<Rightarrow> string list \<Rightarrow> labels \<Rightarrow> string list" where
  "queryFilterLoop P ls [] = ls"
| "queryFilterLoop P ls (lb # l) = queryFilterLoop P (ls @ [quote P (label.Name lb)]) l"

definition queryFilter :: "platform \<Rightarrow> labels \<Rightarrow> string" where
  "queryFilter P l =
     (let ls = queryFilterLoop P [] (nonSummaryLabels l)
      in if length ls = 0 then [] else ''label:'' @ Join ls '','')"

section \<open>Comment selection\<close>

text \<open>
  The loop \<open>for j := len(c) - 1; j >= 0; j--\<close>; the counter \<open>n\<close> is \<open>j + 1\<close>.
\<close>

fun lastMatchLoop :: "comments \<Rightarrow> regexp \<Rightarrow> nat \<Rightarrow> comment option" where
  "lastMatchLoop c r 0 = None"
| "lastMatchLoop c r (Suc j) =
     (if MatchString r (comment.Body (c ! j)) then Some (c ! j) else lastMatchLoop c r j)"

definition lastMatch :: "comments \<Rightarrow> regexp \<Rightarrow> comment option" where
  "lastMatch c r = lastMatchLoop c r (length c)"

text \<open>
  What \<open>regexp.Compile\<close> yields for a pattern made of literal characters only (no
  metacharacter): the pattern matches a text iff it occurs in it as a substring.
\<close>

fun occursIn :: "string \<Rightarrow> string \<Rightarrow> bool" where
  "occursIn p [] = (p = [])"
| "occursIn p (c # cs) = (take (length p) (c # cs) = p \<or> occursIn p cs)"

definition compileLiteral :: "string \<Rightarrow> regexp" where
  "compileLiteral p = \<lparr>String = p, MatchString = occursIn p\<rparr>"

section \<open>Heading normalisation\<close>

text \<open>
  The two patterns \<open>(?m)^\w*#([^#]*)$\<close> and \<open>(?m)^\w*##([^#]*)$\<close> are sequences of
  the following items. Go's regexp package finds the match a backtracking search finds
  first (leftmost-first semantics); \<open>exec\<close> is that search, anchored at the current
  position. \<open>prev\<close> is the character before the position (\<open>None\<close> at the start of
  the text); the flag and the string after it hold capture group 1.
  With the flag \<open>m\<close>, \<open>^\<close> holds at the start of the text and after a newline,
  \<open>$\<close> holds at the end of the text and before a newline. A negated class such as
  \<open>[^#]\<close> matches the newline too. A repetition is greedy: it takes one more
  character first and gives it back only when the rest of the pattern fails.
\<close>

datatype atom = Bol | Eol | Ch "char \<Rightarrow> bool" | Star "char \<Rightarrow> bool" | Open | Close

fun exec :: "atom list \<Rightarrow> char option \<Rightarrow> bool \<Rightarrow> string \<Rightarrow> string
    \<Rightarrow> (string \<times> char option \<times> string) option" where
  "exec [] prev rec cap s = Some (cap, prev, s)"
| "exec (Bol # as) prev rec cap s =
     (if prev = None \<or> prev = Some CHR ''\<newline>'' then exec as prev rec cap s else None)"
| "exec (Eol # as) prev rec cap s =
     (case s of [] \<Rightarrow> exec as prev rec cap s
      | c # cs \<Rightarrow> if c = CHR ''\<newline>'' then exec as prev rec cap s else None)"
| "exec (Open # as) prev rec cap s = exec as prev True [] s"
| "exec (Close # as) prev rec cap s = exec as prev False cap s"
| "exec (Ch p # as) prev rec cap [] = None"
| "exec (Ch p # as) prev rec cap (c # cs) =
     (if p c then exec as (Some c) rec (if rec then cap @ [c] else cap) cs else None)"
| "exec (Star p # as) prev rec cap [] = exec as prev rec cap []"
| "exec (Star p # as) prev rec cap (c # cs) =
     (if p c
      then (case exec (Star p # as) (Some c) rec (if rec then cap @ [c] else cap) cs of
              Some m \<Rightarrow> Some m
            | None \<Rightarrow> exec as prev rec cap (c # cs))
      else exec as prev rec cap (c # cs))"

text \<open>The Perl class \<open>\w\<close>: \<open>[0-9A-Za-z_]\<close>.\<close>

definition isWord :: "char \<Rightarrow> bool" where
  "isWord c = (c \<in> set ''0123456789ABCDEFGHIJKLMNOPQRSTUVWXYZ_abcdefghijklmnopqrstuvwxyz'')"

definition isHash :: "char \<Rightarrow> bool" where
  "isHash c = (c = CHR ''#'')"

definition notHash :: "char \<Rightarrow> bool" where
  "notHash c = (c \<noteq> CHR ''#'')"

definition h1 :: "atom list" where
  "h1 = [Bol, Star isWord, Ch isHash, Open, Star notHash, Close, Eol]"

definition h2 :: "atom list" where
  "h2 = [Bol, Star isWord, Ch isHash, Ch isHash, Open, Star notHash, Close, Eol]"

text \<open>The replacement template \<open>###$1\<close>, expanded with capture group 1.\<close>

definition expand :: "string \<Rightarrow> string" where
  "expand cap = ''###'' @ cap"

text \<open>
  \<open>ReplaceAllString\<close> with that template. The text is scanned from left to right: at
  each position the pattern is tried; a match is replaced and the scan goes on at its
  end, otherwise the character is copied. \<open>adj\<close> says that the position is the end of
  the last match (or the start of the text). The last branch is the library's treatment
  of a match of the empty string: it is replaced unless it lies at the end of the
  preceding match and not at the start of the text, and the scan moves on by one
  character.
\<close>

fun ReplaceAllString :: "atom list \<Rightarrow> char option \<Rightarrow> bool \<Rightarrow> string \<Rightarrow> string" where
  "ReplaceAllString re prev adj s =
     (case exec re prev False [] s of
        None \<Rightarrow> (case s of [] \<Rightarrow> [] | c # cs \<Rightarrow> c # ReplaceAllString re (Some c) False cs)
      | Some (cap, prev', rest) \<Rightarrow>
          if length rest < length s
          then expand cap @ ReplaceAllString re prev' True rest
          else (if \<not> adj \<or> prev = None then expand cap else []) @
               (case s of [] \<Rightarrow> [] | c # cs \<Rightarrow> c # ReplaceAllString re (Some c) False cs))"

definition replaceHeadings :: "string \<Rightarrow> string" where
  "replaceHeadings s =
     (let s = ReplaceAllString h2 None True s;
          s = ReplaceAllString h1 None True s
      in s)"

section \<open>The tracker's API\<close>

text \<open>
  Every request goes through \<open>graphql\<close>: the two search queries (\<open>SummaryIssues\<close>,
  \<open>SearchIssues\<close>, each with its query string) and the mutation \<open>UpdateIssue\<close> (issue
  id and new body). The tracker is outside the program; its answers are a parameter
  \<open>api\<close>, which may depend on all calls made before. An answer is an error (transport
  or API-level, \<open>Inl\<close>) or the decoded nodes (\<open>Inr\<close>; the mutation decodes nothing and
  its nodes are ignored). The state records the calls made so far and, of these, the
  mutations that succeeded, as pairs of issue id and body in the order they were written.
\<close>

datatype call = SummaryIssues string | SearchIssues string | UpdateIssue string string

type_synonym api = "call list \<Rightarrow> call \<Rightarrow> error + graphqlIssue list"

record tracker =
  calls :: "call list"
  updated :: "(string \<times> string) list"

definition graphql :: "api \<Rightarrow> call \<Rightarrow> tracker \<Rightarrow> (error + graphqlIssue list) \<times> tracker" where
  "graphql a c st =
     (let r = a (calls st) c
      in (r, \<lparr>calls = calls st @ [c],
              updated = (case (c, r) of
                           (UpdateIssue i b, Inr _) \<Rightarrow> updated st @ [(i, b)]
                         | _ \<Rightarrow> updated st)\<rparr>))"

definition searchIssues :: "api \<Rightarrow> string \<Rightarrow> tracker \<Rightarrow> (error + graphqlIssue list) \<times> tracker" where
  "searchIssues a query st =
     (case graphql a (SearchIssues query) st of
        (Inl err, st') \<Rightarrow> (Inl err, st')
      | (Inr nodes, st') \<Rightarrow> (Inr nodes, st'))"

definition summarizedIssues ::
    "api \<Rightarrow> platform \<Rightarrow> string \<Rightarrow> issue \<Rightarrow> tracker \<Rightarrow> (error + graphqlIssue list) \<times> tracker" where
  "summarizedIssues a P usr si st =
     (let qf = queryFilter P (labels si)
      in if qf = [] then (Inr [], st)
         else searchIssues a (''user:'' @ usr @ '' '' @ qf) st)"

definition getSummaryIssues ::
    "api \<Rightarrow> platform \<Rightarrow> string \<Rightarrow> labels \<Rightarrow> tracker \<Rightarrow> (error + graphqlIssue list) \<times> tracker" where
  "getSummaryIssues a P usr ls st =
     (case graphql a (SummaryIssues (''is:open user:'' @ usr @ '' label:summary '' @ queryFilter P ls)) st of
        (Inl err, st') \<Rightarrow> (Inl err, st')
      | (Inr nodes, st') \<Rightarrow> (Inr nodes, st'))"

section \<open>Rendering the summary\<close>

definition searchURL :: "platform \<Rightarrow> string \<Rightarrow> string" where
  "searchURL P query = GITHUB_SERVER_URL P @ ''/search?'' @ ''q='' @ queryEscape P query"

text \<open>The first line of the body (lines 211 to 223 of main.go).\<close>

definition preamble :: "platform \<Rightarrow> options \<Rightarrow> issue \<Rightarrow> string" where
  "preamble P opts si =
     (let issuesWithMatchingLabels =
            (let qf = queryFilter P (labels si)
             in if qf \<noteq> []
                then ''['' @ ''issues with matching labels'' @ '']('' @
                     searchURL P (''type:issue user:'' @ user opts @ '' '' @ qf) @ '')''
                else ''issues with matching labels'');
          re = String (summaryCommentRegex opts)
      in if re = []
         then ''_This is generated from the newest comment on '' @ issuesWithMatchingLabels @
              ''._\<newline>''
         else ''_This is generated from the newest comment that matches the regular expression `'' @
              re @ ''` on '' @ issuesWithMatchingLabels @ ''._\<newline>'')"

text \<open>What the loop body writes for one source issue that is not skipped.\<close>

definition issueSection :: "platform \<Rightarrow> options \<Rightarrow> graphqlIssue \<Rightarrow> string" where
  "issueSection P opts i =
     ''## ['' @ graphqlIssue.Title i @ '']('' @ URL i @ '')\<newline>'' @
     (case lastMatch (Comments i) (summaryCommentRegex opts) of
        Some c \<Rightarrow>
          replaceHeadings (comment.Body c) @ ''\<newline>'' @
          ''\<newline>\<newline>_Updated '' @ formatTime P (UpdatedAt c) @ '' by @'' @
          Login (comment.Author c) @ ''_\<newline>\<newline>''
      | None \<Rightarrow> ''_No update_'' @ ''\<newline>'')"

text \<open>The loop over the source issues; its state is \<open>content\<close> and \<open>body\<close>.\<close>

fun summaryLoop ::
    "platform \<Rightarrow> options \<Rightarrow> issue \<Rightarrow> graphqlIssue list \<Rightarrow> bool \<times> string \<Rightarrow> bool \<times> string" where
  "summaryLoop P opts si [] (content, body) = (content, body)"
| "summaryLoop P opts si (i # issues) (content, body) =
     (if graphqlIssue.ID i = id' si
      then summaryLoop P opts si issues (content, body)
      else summaryLoop P opts si issues (True, body @ issueSection P opts i))"

text \<open>The part of \<open>generateIssueSummary\<close> after the source issues are fetched.\<close>

definition renderSummary :: "platform \<Rightarrow> options \<Rightarrow> issue \<Rightarrow> graphqlIssue list \<Rightarrow> string" where
  "renderSummary P opts si issues =
     (case summaryLoop P opts si issues (False, preamble P opts si) of
        (content, body) \<Rightarrow>
          if \<not> content then body @ ''\<newline>No matching issues.\<newline>'' else body)"

definition generateIssueSummary ::
    "api \<Rightarrow> platform \<Rightarrow> options \<Rightarrow> issue \<Rightarrow> tracker \<Rightarrow> (error + string) \<times> tracker" where
  "generateIssueSummary a P opts si st =
     (case summarizedIssues a P (user opts) si st of
        (Inl err, st') \<Rightarrow> (Inl err, st')
      | (Inr issues, st') \<Rightarrow> (Inr (renderSummary P opts si issues), st'))"

section \<open>The orchestrator\<close>

definition updateSummaryIssue ::
    "api \<Rightarrow> platform \<Rightarrow> options \<Rightarrow> issue \<Rightarrow> tracker \<Rightarrow> error option \<times> tracker" where
  "updateSummaryIssue a P opts i st =
     (case generateIssueSummary a P opts i st of
        (Inl err, st') \<Rightarrow> (Some err, st')
      | (Inr body, st') \<Rightarrow>
          (case graphql a (UpdateIssue (id' i) body) st' of
             (Inl err, st'') \<Rightarrow> (Some err, st'')
           | (Inr _, st'') \<Rightarrow> (None, st'')))"

text \<open>
  The composite literals \<open>issue{id: i.ID, title: i.Title, labels: i.Labels.Nodes}\<close>
  (line 131) and \<open>issue{id: e.Issue.ID, title: e.Issue.Title, labels: e.Issue.Labels}\<close>
  (line 37).
\<close>

definition issueOfNode :: "graphqlIssue \<Rightarrow> issue" where
  "issueOfNode i =
     \<lparr>id' = graphqlIssue.ID i, title = graphqlIssue.Title i, labels = graphqlIssue.Labels i\<rparr>"

definition issueOfEvent :: "restIssue \<Rightarrow> issue" where
  "issueOfEvent ei =
     \<lparr>id' = restIssue.ID ei, title = restIssue.Title ei, labels = restIssue.Labels ei\<rparr>"

fun updateLoop ::
    "api \<Rightarrow> platform \<Rightarrow> options \<Rightarrow> graphqlIssue list \<Rightarrow> tracker \<Rightarrow> error option \<times> tracker" where
  "updateLoop a P opts [] st = (None, st)"
| "updateLoop a P opts (i # issues) st =
     (case updateSummaryIssue a P opts (issueOfNode i) st of
        (Some err, st') \<Rightarrow> (Some err, st')
      | (None, st') \<Rightarrow> updateLoop a P opts issues st')"

definition updateSummaryIssues ::
    "api \<Rightarrow> platform \<Rightarrow> options \<Rightarrow> labels \<Rightarrow> tracker \<Rightarrow> error option \<times> tracker" where
  "updateSummaryIssues a P opts ls st =
     (case getSummaryIssues a P (user opts) ls st of
        (Inl err, st') \<Rightarrow> (Some err, st')
      | (Inr issues, st') \<Rightarrow> updateLoop a P opts issues st')"

fun isany :: "string \<Rightarrow> string list \<Rightarrow> bool" where
  "isany s [] = False"
| "isany s (x # v) = (if s = x then True else isany s v)"

text \<open>
  How a run ends: \<open>testableMain\<close> returns nil, returns an error, or panics on a nil
  pointer (an \<open>issues\<close> or \<open>issue_comment\<close> event without issue, a \<open>labeled\<close> or
  \<open>unlabeled\<close> action without label).
\<close>

datatype outcome = Success | Failure error | Panic

text \<open>\<open>return updateSummaryIssues(...)\<close> as the last statement of \<open>testableMain\<close>.\<close>

definition returned :: "error option \<times> tracker \<Rightarrow> outcome \<times> tracker" where
  "returned r = (case r of (None, st) \<Rightarrow> (Success, st) | (Some err, st) \<Rightarrow> (Failure err, st))"

text \<open>
  Two parts of \<open>testableMain\<close> are functions of their own. \<open>directUpdate\<close> is the
  first statement of the case \<open>issues\<close> (lines 36 to 44): the update of the event's own
  issue.
\<close>

definition directUpdate ::
    "api \<Rightarrow> platform \<Rightarrow> options \<Rightarrow> restIssue \<Rightarrow> tracker \<Rightarrow> error option \<times> tracker" where
  "directUpdate a P opts ei st =
     (if contains (restIssue.Labels ei) ''summary'' \<and>
         isany (Action (event opts)) [''edited'', ''labeled'', ''unlabeled'', ''opened'']
      then updateSummaryIssue a P opts (issueOfEvent ei) st
      else (None, st))"

text \<open>\<open>actionSwitch\<close> is the \<open>switch e.Action\<close> that follows (lines 46 to 58).\<close>

definition actionSwitch ::
    "api \<Rightarrow> platform \<Rightarrow> options \<Rightarrow> restIssue \<Rightarrow> tracker \<Rightarrow> outcome \<times> tracker" where
  "actionSwitch a P opts ei st =
     (let e = event opts in
      if Action e = ''labeled'' \<or> Action e = ''unlabeled'' then
        (case Label e of
           None \<Rightarrow> (Panic, st)
         | Some lb \<Rightarrow>
             if label.Name lb = ''summary'' then (Success, st)
             else returned (updateSummaryIssues a P opts [lb] st))
      else if Action e = ''opened'' then
        (let ls = nonSummaryLabels (restIssue.Labels ei)
         in if length ls = 0 then (Success, st)
            else returned (updateSummaryIssues a P opts ls st))
      else (Success, st))"

text \<open>
  \<open>githubActionOptions\<close> reads the environment, the event file and the flags; its
  result is the parameter \<open>parsed\<close>.
\<close>

definition testableMain ::
    "api \<Rightarrow> platform \<Rightarrow> error + options \<Rightarrow> tracker \<Rightarrow> outcome \<times> tracker" where
  "testableMain a P parsed st =
     (case parsed of
        Inl err \<Rightarrow> (Failure err, st)
      | Inr opts \<Rightarrow>
          let e = event opts in
          if event.Name e = ''issues'' then
            (case Issue e of
               None \<Rightarrow> (Panic, st)
             | Some ei \<Rightarrow>
                 (case directUpdate a P opts ei st of
                    (Some err, st') \<Rightarrow> (Failure err, st')
                  | (None, st') \<Rightarrow> actionSwitch a P opts ei st'))
          else if event.Name e = ''issue_comment'' then
            (case Issue e of
               None \<Rightarrow> (Panic, st)
             | Some ei \<Rightarrow>
                 (let ls = nonSummaryLabels (restIssue.Labels ei)
                  in if length ls = 0 then (Success, st)
                     else returned (updateSummaryIssues a P opts ls st)))
          else (Success, st))"

section \<open>Vocabulary of the properties\<close>

text \<open>
  \<open>succeeded a tr cs\<close>: the calls \<open>cs\<close>, made one after the other after the calls
  \<open>tr\<close>, were all answered without error.
\<close>

fun succeeded :: "api \<Rightarrow> call list \<Rightarrow> call list \<Rightarrow> bool" where
  "succeeded a tr [] = True"
| "succeeded a tr (c # cs) =
     (case a tr c of Inl err \<Rightarrow> False | Inr nodes \<Rightarrow> succeeded a (tr @ [c]) cs)"

text \<open>
  The search for the source issues of a summary issue with labels \<open>ls\<close>: no call when
  its filter is empty, otherwise one \<open>SearchIssues\<close> call with the query
  \<open>user:<owner> <filter>\<close>.
\<close>

definition srcQuery :: "platform \<Rightarrow> string \<Rightarrow> labels \<Rightarrow> call list" where
  "srcQuery P usr ls =
     (if queryFilter P ls = [] then []
      else [SearchIssues (''user:'' @ usr @ '' '' @ queryFilter P ls)])"

text \<open>The search for the summary issues that carry one of the labels \<open>ls\<close>.\<close>

definition summaryQuery :: "platform \<Rightarrow> string \<Rightarrow> labels \<Rightarrow> call" where
  "summaryQuery P usr ls =
     SummaryIssues (''is:open user:'' @ usr @ '' label:summary '' @ queryFilter P ls)"

text \<open>
  The calls of the successful regeneration of the summary issues \<open>issues\<close>, the
  \<open>k\<close>-th of them from the source issues \<open>srcs ! k\<close>, and the bodies it writes.
\<close>

definition regenerationCalls ::
    "platform \<Rightarrow> options \<Rightarrow> graphqlIssue list \<Rightarrow> graphqlIssue list list \<Rightarrow> call list" where
  "regenerationCalls P opts issues srcs =
     concat (map (\<lambda>(i, src). srcQuery P (user opts) (graphqlIssue.Labels i) @
                    [UpdateIssue (graphqlIssue.ID i) (renderSummary P opts (issueOfNode i) src)])
                 (zip issues srcs))"

definition regenerationWrites ::
    "platform \<Rightarrow> options \<Rightarrow> graphqlIssue list \<Rightarrow> graphqlIssue list list \<Rightarrow> (string \<times> string) list" where
  "regenerationWrites P opts issues srcs =
     map (\<lambda>(i, src). (graphqlIssue.ID i, renderSummary P opts (issueOfNode i) src)) (zip issues srcs)"

text \<open>
  The lines of a text (\<open>strings.Split(s, "\n")\<close>); \<open>Join ls ''\<newline>''\<close> puts them
  together again.
\<close>

fun splitNL :: "string \<Rightarrow> string list" where
  "splitNL [] = [[]]"
| "splitNL (c # cs) =
     (if c = CHR ''\<newline>'' then [] # splitNL cs
      else (case splitNL cs of l # ls \<Rightarrow> (c # l) # ls | [] \<Rightarrow> [[c]]))"

text \<open>
  What a heading pattern with \<open>k\<close> hash signs does to one line: a line that is a run
  of word characters, then \<open>k\<close> hash signs, then a rest without hash sign becomes
  \<open>###\<close> and that rest; any other line stays.
\<close>

definition demoteLine :: "nat \<Rightarrow> string \<Rightarrow> string" where
  "demoteLine k l =
     (let r = dropWhile isWord l
      in if take k r = replicate k CHR ''#'' \<and> CHR ''#'' \<notin> set (drop k r)
         then ''###'' @ drop k r else l)"

text \<open>The pattern \<open>(?m)^\w*#...#([^#]*)$\<close> with \<open>k\<close> hash signs.\<close>

definition headingRe :: "nat \<Rightarrow> atom list" where
  "headingRe k =
     [Bol, Star isWord] @ replicate k (Ch isHash) @ [Open, Star notHash, Close, Eol]"

text \<open>A text with the function \<open>f\<close> applied to each of its lines.\<close>

definition mapLines :: "(string \<Rightarrow> string) \<Rightarrow> string \<Rightarrow> string" where
  "mapLines f s = Join (map f (splitNL s)) ''\<newline>''"


section \<open>Concrete inputs\<close>

text \<open>
  A platform for the examples: its \<open>quote\<close> puts a name between double quotes, which is
  what \<open>%q\<close> does for a name of letters and digits.
\<close>

definition exPlatform :: platform where
  "exPlatform =
     \<lparr>quote = (\<lambda>s. [CHR 0x22] @ s @ [CHR 0x22]), queryEscape = (\<lambda>s. s),
      formatTime = (\<lambda>t. ''2020-01-01 00:00:00 UTC''),
      GITHUB_SERVER_URL = ''https://github.com''\<rparr>"

definition lbl :: "string \<Rightarrow> label" where
  "lbl n = \<lparr>label.Name = n\<rparr>"

definition exComment :: "string \<Rightarrow> time \<Rightarrow> comment" where
  "exComment b t = \<lparr>comment.Author = \<lparr>Login = ''alice''\<rparr>, comment.Body = b, UpdatedAt = t\<rparr>"

text \<open>A summary issue \<open>S\<close> with the labels summary and bug, and a source issue \<open>I1\<close>.\<close>

definition exSummary :: graphqlIssue where
  "exSummary =
     \<lparr>graphqlIssue.ID = ''S'', URL = ''u/S'', graphqlIssue.Title = ''Weekly'',
      graphqlIssue.Body = [], graphqlIssue.Author = \<lparr>Login = ''bob''\<rparr>,
      graphqlIssue.Labels = [lbl ''summary'', lbl ''bug''], Comments = []\<rparr>"

definition exSource :: graphqlIssue where
  "exSource =
     \<lparr>graphqlIssue.ID = ''I1'', URL = ''u/I1'', graphqlIssue.Title = ''Crash'',
      graphqlIssue.Body = [], graphqlIssue.Author = \<lparr>Login = ''alice''\<rparr>,
      graphqlIssue.Labels = [lbl ''bug''], Comments = [exComment ''# Fixed'' 1]\<rparr>"

text \<open>
  A tracker that answers every summary search with \<open>S\<close>, every source search with
  \<open>S\<close> and \<open>I1\<close>, and accepts every update; and one that refuses every update.
\<close>

definition exApi :: api where
  "exApi tr c =
     (case c of
        SummaryIssues q \<Rightarrow> Inr [exSummary]
      | SearchIssues q \<Rightarrow> Inr [exSummary, exSource]
      | UpdateIssue i b \<Rightarrow> Inr [])"

definition exApiRefusing :: api where
  "exApiRefusing tr c =
     (case c of
        SummaryIssues q \<Rightarrow> Inr [exSummary]
      | SearchIssues q \<Rightarrow> Inr [exSummary, exSource]
      | UpdateIssue i b \<Rightarrow> Inl ''graphql error: forbidden'')"

text \<open>The event \<open>issues\<close>/\<open>labeled\<close> with the changed label bug, on the issue \<open>ei\<close>.\<close>

definition exLabeled :: "restIssue \<Rightarrow> options" where
  "exLabeled ei =
     \<lparr>user = ''octo'',
      event = \<lparr>event.Name = ''issues'', Action = ''labeled'', Issue = Some ei,
               Label = Some (lbl ''bug'')\<rparr>,
      summaryCommentRegex = compileLiteral []\<rparr>"

text \<open>
  The same event with the changed label summary, and the event \<open>issues\<close>/\<open>edited\<close>.
\<close>

definition exLabeledSummary :: "restIssue \<Rightarrow> options" where
  "exLabeledSummary ei =
     \<lparr>user = ''octo'',
      event = \<lparr>event.Name = ''issues'', Action = ''labeled'', Issue = Some ei,
               Label = Some (lbl ''summary'')\<rparr>,
      summaryCommentRegex = compileLiteral []\<rparr>"

definition exEdited :: "restIssue \<Rightarrow> options" where
  "exEdited ei =
     \<lparr>user = ''octo'',
      event = \<lparr>event.Name = ''issues'', Action = ''edited'', Issue = Some ei, Label = None\<rparr>,
      summaryCommentRegex = compileLiteral []\<rparr>"

definition exRestSource :: restIssue where
  "exRestSource =
     \<lparr>restIssue.ID = ''I1'', restIssue.Title = ''Crash'', restIssue.Body = [],
      restIssue.Author = \<lparr>Login = ''alice''\<rparr>, restIssue.Labels = [lbl ''bug'']\<rparr>"

definition exRestSummary :: restIssue where
  "exRestSummary =
     \<lparr>restIssue.ID = ''S'', restIssue.Title = ''Weekly'', restIssue.Body = [],
      restIssue.Author = \<lparr>Login = ''bob''\<rparr>,
      restIssue.Labels = [lbl ''summary'', lbl ''bug'']\<rparr>"

definition st0 :: tracker where
  "st0 = \<lparr>calls = [], updated = []\<rparr>"

text \<open>A tracker that is down: every call is answered with an error.\<close>

definition exApiDown :: api where
  "exApiDown tr c = Inl ''connection refused''"

text \<open>
  A second summary issue \<open>T\<close>, and a tracker that finds \<open>S\<close> and \<open>T\<close> and accepts one
  update per run: it refuses an update when one was made before.
\<close>

definition exSummary2 :: graphqlIssue where
  "exSummary2 =
     \<lparr>graphqlIssue.ID = ''T'', URL = ''u/T'', graphqlIssue.Title = ''Monthly'',
      graphqlIssue.Body = [], graphqlIssue.Author = \<lparr>Login = ''bob''\<rparr>,
      graphqlIssue.Labels = [lbl ''summary'', lbl ''bug''], Comments = []\<rparr>"

definition exApiOnce :: api where
  "exApiOnce tr c =
     (case c of
        SummaryIssues q \<Rightarrow> Inr [exSummary, exSummary2]
      | SearchIssues q \<Rightarrow> Inr [exSource]
      | UpdateIssue i b \<Rightarrow>
          if filter (\<lambda>x. case x of UpdateIssue j d \<Rightarrow> True | _ \<Rightarrow> False) tr = [] then Inr []
          else Inl ''rate limited'')"

section \<open>Label sets: properties\<close>

lemma nonSummaryLabelsLoop_filter:
  "nonSummaryLabelsLoop ls l = ls @ filter (\<lambda>lb. label.Name lb \<noteq> ''summary'') l"
  by (induction l arbitrary: ls) simp_all

lemma nonSummaryLabels_eq:
  "nonSummaryLabels l = filter (\<lambda>lb. label.Name lb \<noteq> ''summary'') l"
  by (simp add: nonSummaryLabels_def nonSummaryLabelsLoop_filter)

lemma queryFilterLoop_map:
  "queryFilterLoop P ls l = ls @ map (\<lambda>lb. quote P (label.Name lb)) l"
  by (induction l arbitrary: ls) simp_all

lemma queryFilter_eq:
  "queryFilter P L =
     (if nonSummaryLabels L = [] then []
      else ''label:'' @ Join (map (\<lambda>lb. quote P (label.Name lb)) (nonSummaryLabels L)) '','')"
  by (simp add: queryFilter_def queryFilterLoop_map Let_def)

text \<open>
  C4: for every label set \<open>L\<close>, \<open>nonSummaryLabels L\<close> consists of exactly the labels
  of \<open>L\<close> whose name is not \<open>summary\<close>, in their order in \<open>L\<close>, and so holds no label
  named \<open>summary\<close>.
\<close>

theorem nonSummaryLabels_exact:
  "nonSummaryLabels L = filter (\<lambda>lb. label.Name lb \<noteq> ''summary'') L \<and>
   ''summary'' \<notin> label.Name ` set (nonSummaryLabels L)"
  by (auto simp: nonSummaryLabels_eq)

text \<open>
  C3, as stated, asks that every non-summary label name appears exactly once in the
  filter. A label set is a sequence and may hold a name twice; the filter then lists
  it twice.
\<close>

theorem queryFilter_duplicate_name:
  \<open>queryFilter exPlatform [lbl ''bug'', lbl ''bug''] = ''label:"bug","bug"'' \<and>
   count_list (queryFilterLoop exPlatform [] (nonSummaryLabels [lbl ''bug'', lbl ''bug'']))
     ''"bug"'' = 2\<close>
  by (simp add: queryFilter_def nonSummaryLabels_def exPlatform_def lbl_def)

text \<open>
  C3, amended: \<open>queryFilter L\<close> is the empty string iff \<open>nonSummaryLabels L\<close> is empty;
  otherwise it is \<open>label:\<close> followed by one quoted name for each element of
  \<open>nonSummaryLabels L\<close>, in that order, joined by commas. Each non-summary name is
  listed as often as it occurs in \<open>L\<close>: exactly once when the names of \<open>L\<close> are
  distinct.
\<close>

theorem queryFilter_exact:
  "(queryFilter P L = [] \<longleftrightarrow> nonSummaryLabels L = []) \<and>
   (nonSummaryLabels L \<noteq> [] \<longrightarrow>
      queryFilter P L =
        ''label:'' @ Join (map (\<lambda>lb. quote P (label.Name lb)) (nonSummaryLabels L)) '','') \<and>
   (\<forall>n. n \<noteq> ''summary'' \<longrightarrow>
      count_list (map label.Name (nonSummaryLabels L)) n = count_list (map label.Name L) n) \<and>
   (distinct (map label.Name L) \<longrightarrow> distinct (map label.Name (nonSummaryLabels L)))"
proof -
  have "count_list (map label.Name (filter (\<lambda>lb. label.Name lb \<noteq> ''summary'') L)) n =
        count_list (map label.Name L) n" if "n \<noteq> ''summary''" for n
    using that by (induction L) auto
  then show ?thesis
    by (simp add: queryFilter_eq nonSummaryLabels_eq distinct_map_filter)
qed

theorem queryFilter_exact_witness:
  \<open>nonSummaryLabels [lbl ''summary'', lbl ''a'', lbl ''b''] \<noteq> [] \<and>
   distinct (map label.Name [lbl ''summary'', lbl ''a'', lbl ''b'']) \<and>
   queryFilter exPlatform [lbl ''summary'', lbl ''a'', lbl ''b''] = ''label:"a","b"'' \<and>
   count_list (map label.Name (nonSummaryLabels [lbl ''summary'', lbl ''a'', lbl ''b''])) ''a'' = 1 \<and>
   distinct (map label.Name (nonSummaryLabels [lbl ''summary'', lbl ''a'', lbl ''b'']))\<close>
proof -
  let ?L = "[lbl ''summary'', lbl ''a'', lbl ''b'']"
  have ne: "nonSummaryLabels ?L \<noteq> []"
    by (simp add: nonSummaryLabels_def lbl_def)
  have d: "distinct (map label.Name ?L)"
    by (simp add: lbl_def)
  have q: "''label:'' @ Join (map (\<lambda>lb. quote exPlatform (label.Name lb)) (nonSummaryLabels ?L)) '','' =
      [CHR ''l'', CHR ''a'', CHR ''b'', CHR ''e'', CHR ''l'', CHR '':'', CHR 0x22, CHR ''a'',
       CHR 0x22, CHR '','', CHR 0x22, CHR ''b'', CHR 0x22]"
    by (simp add: nonSummaryLabels_def lbl_def exPlatform_def)
  have c: "count_list (map label.Name ?L) ''a'' = 1"
    by (simp add: lbl_def)
  from queryFilter_exact[of exPlatform ?L] ne d q c show ?thesis
    by simp
qed

section \<open>Comment selection: properties\<close>

lemma lastMatchLoop_find:
  "n \<le> length c \<Longrightarrow>
   lastMatchLoop c r n = List.find (\<lambda>x. MatchString r (comment.Body x)) (rev (take n c))"
  by (induction n) (simp_all add: take_Suc_conv_app_nth)

lemma lastMatch_find:
  "lastMatch c r = List.find (\<lambda>x. MatchString r (comment.Body x)) (rev c)"
  by (simp add: lastMatch_def lastMatchLoop_find)

lemma occursIn_Nil: "occursIn [] s"
  by (cases s) simp_all

text \<open>
  C1: for comments \<open>c\<close> in chronological order, \<open>lastMatch\<close> returns the first comment
  whose body matches, scanning from the newest backward, that is the most recent
  matching comment; it returns no comment iff no body matches, in particular for the
  empty list. The empty pattern matches every body, so the newest comment is returned.
  For the bodies a, MATCH-b, c and the pattern MATCH the second comment is returned.
\<close>

theorem lastMatch_most_recent:
  "lastMatch c r = List.find (\<lambda>x. MatchString r (comment.Body x)) (rev c) \<and>
   (lastMatch c r = None \<longleftrightarrow> \<not> (\<exists>x \<in> set c. MatchString r (comment.Body x))) \<and>
   lastMatch [] r = None \<and>
   lastMatch c (compileLiteral []) = (if c = [] then None else Some (last c)) \<and>
   lastMatch [exComment ''a'' 1, exComment ''MATCH-b'' 2, exComment ''c'' 3]
      (compileLiteral ''MATCH'') = Some (exComment ''MATCH-b'' 2)"
proof -
  have 1: "lastMatch c r = List.find (\<lambda>x. MatchString r (comment.Body x)) (rev c)"
    by (rule lastMatch_find)
  have 2: "lastMatch c r = None \<longleftrightarrow> \<not> (\<exists>x \<in> set c. MatchString r (comment.Body x))"
    by (auto simp: lastMatch_find find_None_iff)
  have 3: "lastMatch [] r = None"
    by (simp add: lastMatch_def)
  have 4: "lastMatch c (compileLiteral []) = (if c = [] then None else Some (last c))"
    by (cases c rule: rev_cases) (simp_all add: lastMatch_find compileLiteral_def occursIn_Nil)
  have 5: "lastMatch [exComment ''a'' 1, exComment ''MATCH-b'' 2, exComment ''c'' 3]
      (compileLiteral ''MATCH'') = Some (exComment ''MATCH-b'' 2)"
    by (simp add: lastMatch_def compileLiteral_def exComment_def numeral_3_eq_3)
  from 1 2 3 4 5 show ?thesis by blast
qed

theorem lastMatch_most_recent_witness:
  "(\<exists>x \<in> set [exComment ''a'' 1, exComment ''b'' 2]. MatchString (compileLiteral ''b'') (comment.Body x)) \<and>
   lastMatch [exComment ''a'' 1, exComment ''b'' 2] (compileLiteral ''b'') \<noteq> None"
proof -
  have "\<exists>x \<in> set [exComment ''a'' 1, exComment ''b'' 2]. MatchString (compileLiteral ''b'') (comment.Body x)"
    by (simp add: compileLiteral_def exComment_def)
  with lastMatch_most_recent[of "[exComment ''a'' 1, exComment ''b'' 2]" "compileLiteral ''b''"]
  show ?thesis by blast
qed

section \<open>The tracker's API: properties\<close>

lemma succeeded_append:
  "succeeded a tr (xs @ ys) = (succeeded a tr xs \<and> succeeded a (tr @ xs) ys)"
  by (induction xs arbitrary: tr) (auto split: sum.splits)

lemma succeeded_Cons:
  "succeeded a tr (c # cs) = ((\<exists>nodes. a tr c = Inr nodes) \<and> succeeded a (tr @ [c]) cs)"
  by (cases "a tr c") simp_all

declare succeeded.simps(2) [simp del]
declare succeeded_Cons [simp]

lemma srcQuery_no_summary: "SummaryIssues q \<notin> set (srcQuery P usr ls)"
  by (simp add: srcQuery_def)

lemma graphql_result:
  "graphql a c st = (r, st') \<Longrightarrow>
     a (calls st) c = r \<and> calls st' = calls st @ [c] \<and>
     updated st' =
       (case (c, r) of (UpdateIssue i b, Inr _) \<Rightarrow> updated st @ [(i, b)] | _ \<Rightarrow> updated st)"
  by (auto simp: graphql_def Let_def)

lemma summarizedIssues_result:
  "summarizedIssues a P usr si st = (r, st') \<Longrightarrow>
     (if queryFilter P (labels si) = [] then r = Inr [] \<and> st' = st
      else a (calls st) (SearchIssues (''user:'' @ usr @ '' '' @ queryFilter P (labels si))) = r \<and>
           calls st' = calls st @ [SearchIssues (''user:'' @ usr @ '' '' @ queryFilter P (labels si))] \<and>
           updated st' = updated st)"
  by (auto simp: summarizedIssues_def searchIssues_def graphql_def Let_def
           split: if_splits sum.splits)

lemma getSummaryIssues_result:
  "getSummaryIssues a P usr ls st = (r, st') \<Longrightarrow>
     a (calls st) (summaryQuery P usr ls) = r \<and> calls st' = calls st @ [summaryQuery P usr ls] \<and>
     updated st' = updated st"
  by (auto simp: getSummaryIssues_def graphql_def Let_def summaryQuery_def split: sum.splits)

section \<open>Rendering the summary: properties\<close>

lemma summaryLoop_eq:
  "summaryLoop P opts si issues (content, body) =
     (content \<or> filter (\<lambda>i. graphqlIssue.ID i \<noteq> id' si) issues \<noteq> [],
      body @ concat (map (issueSection P opts) (filter (\<lambda>i. graphqlIssue.ID i \<noteq> id' si) issues)))"
  by (induction issues arbitrary: content body) simp_all

lemma renderSummary_eq:
  "renderSummary P opts si issues =
     preamble P opts si @
     (if filter (\<lambda>i. graphqlIssue.ID i \<noteq> id' si) issues = [] then ''\<newline>No matching issues.\<newline>''
      else concat (map (issueSection P opts) (filter (\<lambda>i. graphqlIssue.ID i \<noteq> id' si) issues)))"
  by (simp add: renderSummary_def summaryLoop_eq)

lemma generateIssueSummary_result:
  "summarizedIssues a P (user opts) si st = (Inr issues, st') \<Longrightarrow>
   generateIssueSummary a P opts si st = (Inr (renderSummary P opts si issues), st')"
  by (simp add: generateIssueSummary_def)

text \<open>
  C5: the body rendered for a summary issue is its preamble followed by one section for
  each matched source issue whose id differs from the summary issue's id, and by
  nothing else (or by the line for no matching issues when no such source issue is
  left). It is the body rendered from the source list without the summary issue, also
  when the search, whose query names only the owner and the label filter, returns the
  summary issue itself.
\<close>

theorem renderSummary_skips_self:
  "renderSummary P opts si issues =
     preamble P opts si @
     (if filter (\<lambda>i. graphqlIssue.ID i \<noteq> id' si) issues = [] then ''\<newline>No matching issues.\<newline>''
      else concat (map (issueSection P opts) (filter (\<lambda>i. graphqlIssue.ID i \<noteq> id' si) issues))) \<and>
   renderSummary P opts si issues =
     renderSummary P opts si (filter (\<lambda>i. graphqlIssue.ID i \<noteq> id' si) issues) \<and>
   (summarizedIssues a P (user opts) si st = (Inr issues, st') \<longrightarrow>
      generateIssueSummary a P opts si st =
        (Inr (renderSummary P opts si (filter (\<lambda>i. graphqlIssue.ID i \<noteq> id' si) issues)), st'))"
proof -
  have "renderSummary P opts si issues =
     renderSummary P opts si (filter (\<lambda>i. graphqlIssue.ID i \<noteq> id' si) issues)"
    by (simp add: renderSummary_eq)
  then show ?thesis
    by (simp add: renderSummary_eq[of P opts si issues] generateIssueSummary_result)
qed

theorem renderSummary_skips_self_witness:
  "summarizedIssues exApi exPlatform (user (exLabeled exRestSummary)) (issueOfNode exSummary) st0 =
     (Inr [exSummary, exSource],
      \<lparr>calls = [SearchIssues (''user:octo '' @ queryFilter exPlatform (graphqlIssue.Labels exSummary))],
       updated = []\<rparr>) \<and>
   generateIssueSummary exApi exPlatform (exLabeled exRestSummary) (issueOfNode exSummary) st0 =
     (Inr (renderSummary exPlatform (exLabeled exRestSummary) (issueOfNode exSummary) [exSource]),
      \<lparr>calls = [SearchIssues (''user:octo '' @ queryFilter exPlatform (graphqlIssue.Labels exSummary))],
       updated = []\<rparr>)"
proof -
  let ?st = "\<lparr>calls = [SearchIssues (''user:octo '' @ queryFilter exPlatform (graphqlIssue.Labels exSummary))],
       updated = []\<rparr>"
  have q: "queryFilter exPlatform (graphqlIssue.Labels exSummary) \<noteq> []"
    by (simp add: queryFilter_eq nonSummaryLabels_eq exSummary_def lbl_def)
  have h: "summarizedIssues exApi exPlatform (user (exLabeled exRestSummary)) (issueOfNode exSummary) st0 =
     (Inr [exSummary, exSource], ?st)"
    using q by (simp add: summarizedIssues_def searchIssues_def graphql_def exApi_def st0_def
        exLabeled_def issueOfNode_def Let_def)
  have f: "filter (\<lambda>i. graphqlIssue.ID i \<noteq> id' (issueOfNode exSummary)) [exSummary, exSource] = [exSource]"
    by (simp add: issueOfNode_def exSummary_def exSource_def)
  from renderSummary_skips_self[of exPlatform "exLabeled exRestSummary" "issueOfNode exSummary"
      "[exSummary, exSource]" exApi st0 ?st] h f
  show ?thesis by simp
qed

text \<open>
  C6: for a summary issue without non-summary label no source search is made (the
  source list is empty and the tracker is not called), and the body is the preamble
  line with the plain words, not a link, followed by an empty line and the line
  \<open>No matching issues.\<close>; the preamble followed by these two lines is also the body
  whenever every source issue is skipped, in particular when there is none.
\<close>

theorem empty_result_body:
  "(nonSummaryLabels (labels si) = [] \<longrightarrow>
      summarizedIssues a P (user opts) si st = (Inr [], st) \<and>
      generateIssueSummary a P opts si st =
        (Inr ((if String (summaryCommentRegex opts) = []
               then ''_This is generated from the newest comment on issues with matching labels._\<newline>''
               else ''_This is generated from the newest comment that matches the regular expression `'' @
                    String (summaryCommentRegex opts) @ ''` on issues with matching labels._\<newline>'') @
              ''\<newline>No matching issues.\<newline>''), st)) \<and>
   ((\<forall>i \<in> set issues. graphqlIssue.ID i = id' si) \<longrightarrow>
      renderSummary P opts si issues = preamble P opts si @ ''\<newline>No matching issues.\<newline>'')"
proof (intro conjI impI)
  assume e: "nonSummaryLabels (labels si) = []"
  then have q: "queryFilter P (labels si) = []"
    by (simp add: queryFilter_eq)
  then show s: "summarizedIssues a P (user opts) si st = (Inr [], st)"
    by (simp add: summarizedIssues_def)
  from q have "preamble P opts si =
      (if String (summaryCommentRegex opts) = []
       then ''_This is generated from the newest comment on issues with matching labels._\<newline>''
       else ''_This is generated from the newest comment that matches the regular expression `'' @
            String (summaryCommentRegex opts) @ ''` on issues with matching labels._\<newline>'')"
    by (simp add: preamble_def)
  with generateIssueSummary_result[OF s]
  show "generateIssueSummary a P opts si st =
        (Inr ((if String (summaryCommentRegex opts) = []
               then ''_This is generated from the newest comment on issues with matching labels._\<newline>''
               else ''_This is generated from the newest comment that matches the regular expression `'' @
                    String (summaryCommentRegex opts) @ ''` on issues with matching labels._\<newline>'') @
              ''\<newline>No matching issues.\<newline>''), st)"
    by (simp add: renderSummary_eq)
next
  assume "\<forall>i \<in> set issues. graphqlIssue.ID i = id' si"
  then have "filter (\<lambda>i. graphqlIssue.ID i \<noteq> id' si) issues = []"
    by (simp add: filter_empty_conv)
  then show "renderSummary P opts si issues = preamble P opts si @ ''\<newline>No matching issues.\<newline>''"
    by (simp add: renderSummary_eq)
qed

theorem empty_result_body_witness:
  "nonSummaryLabels (labels \<lparr>id' = ''S'', title = ''Weekly'', labels = [lbl ''summary'']\<rparr>) = [] \<and>
   graphqlIssue.ID exSummary = id' \<lparr>id' = ''S'', title = ''Weekly'', labels = [lbl ''summary'']\<rparr> \<and>
   generateIssueSummary exApi exPlatform (exLabeled exRestSummary)
       \<lparr>id' = ''S'', title = ''Weekly'', labels = [lbl ''summary'']\<rparr> st0 =
     (Inr ''_This is generated from the newest comment on issues with matching labels._\<newline>\<newline>No matching issues.\<newline>'', st0) \<and>
   renderSummary exPlatform (exLabeled exRestSummary)
       \<lparr>id' = ''S'', title = ''Weekly'', labels = [lbl ''summary'']\<rparr> [exSummary] =
     ''_This is generated from the newest comment on issues with matching labels._\<newline>\<newline>No matching issues.\<newline>''"
proof -
  let ?si = "\<lparr>id' = ''S'', title = ''Weekly'', labels = [lbl ''summary'']\<rparr>"
  have e: "nonSummaryLabels (labels ?si) = []"
    by (simp add: nonSummaryLabels_def lbl_def)
  have s: "\<forall>i \<in> set [exSummary]. graphqlIssue.ID i = id' ?si"
    by (simp add: exSummary_def)
  have r: "String (summaryCommentRegex (exLabeled exRestSummary)) = []"
    by (simp add: exLabeled_def compileLiteral_def)
  have p: "preamble exPlatform (exLabeled exRestSummary) ?si =
      ''_This is generated from the newest comment on issues with matching labels._\<newline>''"
    using e r by (simp add: preamble_def queryFilter_eq)
  from empty_result_body[of ?si exApi exPlatform "exLabeled exRestSummary" st0 "[exSummary]"] e s r p
  show ?thesis by simp
qed

section \<open>The orchestrator: properties\<close>

lemma returned_simps [simp]:
  "returned (None, st) = (Success, st)"
  "returned (Some err, st) = (Failure err, st)"
  by (simp_all add: returned_def)

lemma returned_eq:
  "(returned r = (Success, st')) = (r = (None, st'))"
  "(returned r = (Failure err, st')) = (r = (Some err, st'))"
  by (cases r; cases "fst r"; auto simp: returned_def)+

lemma updateSummaryIssue_ok:
  assumes "updateSummaryIssue a P opts i st = (None, st')"
  shows "\<exists>src. calls st' = calls st @ srcQuery P (user opts) (labels i) @
                    [UpdateIssue (id' i) (renderSummary P opts i src)] \<and>
     updated st' = updated st @ [(id' i, renderSummary P opts i src)] \<and>
     succeeded a (calls st)
       (srcQuery P (user opts) (labels i) @ [UpdateIssue (id' i) (renderSummary P opts i src)])"
proof -
  obtain r1 st1 where g: "summarizedIssues a P (user opts) i st = (r1, st1)"
    by (cases "summarizedIssues a P (user opts) i st")
  from assms g obtain src where r1: "r1 = Inr src"
    by (cases r1) (auto simp: updateSummaryIssue_def generateIssueSummary_def)
  let ?c = "UpdateIssue (id' i) (renderSummary P opts i src)"
  obtain r2 st2 where u: "graphql a ?c st1 = (r2, st2)"
    by (cases "graphql a ?c st1")
  from assms g r1 u obtain ns where r2: "r2 = Inr ns" and st2: "st' = st2"
    by (cases r2) (auto simp: updateSummaryIssue_def generateIssueSummary_def)
  note s = summarizedIssues_result[OF g] and q = graphql_result[OF u]
  show ?thesis
  proof (cases "queryFilter P (labels i) = []")
    case True
    with s q r1 r2 st2 show ?thesis
      by (intro exI[of _ src]) (simp add: srcQuery_def)
  next
    case False
    with s q r1 r2 st2 show ?thesis
      by (intro exI[of _ src]) (simp add: srcQuery_def)
  qed
qed

lemma updateSummaryIssue_err:
  assumes "updateSummaryIssue a P opts i st = (Some err, st')"
  shows "\<exists>pre c. calls st' = calls st @ pre @ [c] \<and> succeeded a (calls st) pre \<and>
     a (calls st @ pre) c = Inl err \<and> updated st' = updated st \<and>
     (\<forall>q. SummaryIssues q \<notin> set (pre @ [c]))"
proof -
  obtain r1 st1 where g: "summarizedIssues a P (user opts) i st = (r1, st1)"
    by (cases "summarizedIssues a P (user opts) i st")
  note s = summarizedIssues_result[OF g]
  let ?q = "SearchIssues (''user:'' @ user opts @ '' '' @ queryFilter P (labels i))"
  show ?thesis
  proof (cases r1)
    case (Inl e)
    with assms g have e: "e = err" and st1: "st' = st1"
      by (auto simp: updateSummaryIssue_def generateIssueSummary_def)
    from s Inl have nz: "queryFilter P (labels i) \<noteq> []"
      by (auto split: if_splits)
    with s Inl e st1 show ?thesis
      by (intro exI[of _ "[]"] exI[of _ ?q]) simp
  next
    case (Inr src)
    let ?c = "UpdateIssue (id' i) (renderSummary P opts i src)"
    obtain r2 st2 where u: "graphql a ?c st1 = (r2, st2)"
      by (cases "graphql a ?c st1")
    from assms g Inr u have r2: "r2 = Inl err" and st2: "st' = st2"
      by (cases r2; auto simp: updateSummaryIssue_def generateIssueSummary_def)+
    note q = graphql_result[OF u]
    show ?thesis
    proof (cases "queryFilter P (labels i) = []")
      case True
      with s q Inr r2 st2 show ?thesis
        by (intro exI[of _ "[]"] exI[of _ ?c]) simp
    next
      case False
      with s q Inr r2 st2 show ?thesis
        by (intro exI[of _ "[?q]"] exI[of _ ?c]) simp
    qed
  qed
qed

lemma updateLoop_ok:
  "updateLoop a P opts issues st = (None, st') \<Longrightarrow>
   \<exists>srcs. length srcs = length issues \<and>
     calls st' = calls st @ regenerationCalls P opts issues srcs \<and>
     updated st' = updated st @ regenerationWrites P opts issues srcs \<and>
     succeeded a (calls st) (regenerationCalls P opts issues srcs)"
proof (induction issues arbitrary: st)
  case Nil
  then show ?case by (simp add: regenerationCalls_def regenerationWrites_def)
next
  case (Cons i issues)
  obtain r1 st1 where u: "updateSummaryIssue a P opts (issueOfNode i) st = (r1, st1)"
    by (cases "updateSummaryIssue a P opts (issueOfNode i) st")
  with Cons.prems have r1: "r1 = None" and rest: "updateLoop a P opts issues st1 = (None, st')"
    by (auto split: option.splits)
  let ?b = "\<lambda>src. renderSummary P opts (issueOfNode i) src"
  let ?one = "\<lambda>src. srcQuery P (user opts) (graphqlIssue.Labels i) @ [UpdateIssue (graphqlIssue.ID i) (?b src)]"
  from updateSummaryIssue_ok[OF u[unfolded r1]] obtain src where
    c1: "calls st1 = calls st @ ?one src"
    and u1: "updated st1 = updated st @ [(graphqlIssue.ID i, ?b src)]"
    and s1: "succeeded a (calls st) (?one src)"
    by (auto simp: issueOfNode_def)
  from Cons.IH[OF rest] obtain srcs where
    l: "length srcs = length issues"
    and c2: "calls st' = calls st1 @ regenerationCalls P opts issues srcs"
    and u2: "updated st' = updated st1 @ regenerationWrites P opts issues srcs"
    and s2: "succeeded a (calls st1) (regenerationCalls P opts issues srcs)"
    by blast
  have rc: "regenerationCalls P opts (i # issues) (src # srcs) = ?one src @ regenerationCalls P opts issues srcs"
    by (simp add: regenerationCalls_def)
  have rw: "regenerationWrites P opts (i # issues) (src # srcs) =
      (graphqlIssue.ID i, ?b src) # regenerationWrites P opts issues srcs"
    by (simp add: regenerationWrites_def)
  from s1 s2 c1 have s: "succeeded a (calls st) (?one src @ regenerationCalls P opts issues srcs)"
    by (simp add: succeeded_append)
  show ?case
    apply (rule exI[of _ "src # srcs"])
    using l c1 c2 u1 u2 s by (simp only: rc rw) simp
qed

lemma updateLoop_err:
  "updateLoop a P opts issues st = (Some err, st') \<Longrightarrow>
   \<exists>pre c k bodies. calls st' = calls st @ pre @ [c] \<and> succeeded a (calls st) pre \<and>
     a (calls st @ pre) c = Inl err \<and> k < length issues \<and> length bodies = k \<and>
     updated st' = updated st @ zip (map graphqlIssue.ID (take k issues)) bodies \<and>
     (\<forall>q. SummaryIssues q \<notin> set (pre @ [c]))"
proof (induction issues arbitrary: st)
  case Nil
  then show ?case by simp
next
  case (Cons i issues)
  obtain r1 st1 where u: "updateSummaryIssue a P opts (issueOfNode i) st = (r1, st1)"
    by (cases "updateSummaryIssue a P opts (issueOfNode i) st")
  show ?case
  proof (cases r1)
    case None
    with u Cons.prems have rest: "updateLoop a P opts issues st1 = (Some err, st')"
      by auto
    let ?b = "\<lambda>src. renderSummary P opts (issueOfNode i) src"
    let ?one = "\<lambda>src. srcQuery P (user opts) (graphqlIssue.Labels i) @ [UpdateIssue (graphqlIssue.ID i) (?b src)]"
    from updateSummaryIssue_ok[OF u[unfolded None]] obtain src where
      c1: "calls st1 = calls st @ ?one src"
      and u1: "updated st1 = updated st @ [(graphqlIssue.ID i, ?b src)]"
      and s1: "succeeded a (calls st) (?one src)"
      by (auto simp: issueOfNode_def)
    from Cons.IH[OF rest] obtain pre c k bodies where
      c2: "calls st' = calls st1 @ pre @ [c]" and s2: "succeeded a (calls st1) pre"
      and e2: "a (calls st1 @ pre) c = Inl err" and k: "k < length issues" and l: "length bodies = k"
      and u2: "updated st' = updated st1 @ zip (map graphqlIssue.ID (take k issues)) bodies"
      and n2: "\<forall>q. SummaryIssues q \<notin> set (pre @ [c])"
      by blast
    from s1 s2 c1 have s: "succeeded a (calls st) (?one src @ pre)"
      by (simp add: succeeded_append)
    show ?thesis
      apply (rule exI[of _ "?one src @ pre"], rule exI[of _ c], rule exI[of _ "Suc k"],
             rule exI[of _ "?b src # bodies"])
      using c1 c2 s e2 k l u1 u2 n2 by (simp add: srcQuery_no_summary)
  next
    case (Some e)
    with u Cons.prems have e: "e = err" and st1: "st' = st1"
      by auto
    from updateSummaryIssue_err[OF u[unfolded Some e]] obtain pre c where
      "calls st1 = calls st @ pre @ [c]" "succeeded a (calls st) pre"
      "a (calls st @ pre) c = Inl err" "updated st1 = updated st"
      "\<forall>q. SummaryIssues q \<notin> set (pre @ [c])"
      by blast
    then show ?thesis
      apply (intro exI[of _ pre] exI[of _ c] exI[of _ 0] exI[of _ "[]"])
      using st1 by simp
  qed
qed

lemma updateSummaryIssues_ok:
  assumes "updateSummaryIssues a P opts ls st = (None, st')"
  shows "\<exists>issues srcs. a (calls st) (summaryQuery P (user opts) ls) = Inr issues \<and>
     length srcs = length issues \<and>
     calls st' = calls st @ summaryQuery P (user opts) ls # regenerationCalls P opts issues srcs \<and>
     updated st' = updated st @ regenerationWrites P opts issues srcs \<and>
     succeeded a (calls st) (summaryQuery P (user opts) ls # regenerationCalls P opts issues srcs)"
proof -
  obtain r1 st1 where g: "getSummaryIssues a P (user opts) ls st = (r1, st1)"
    by (cases "getSummaryIssues a P (user opts) ls st")
  with assms obtain issues where r1: "r1 = Inr issues"
    and l: "updateLoop a P opts issues st1 = (None, st')"
    by (cases r1) (auto simp: updateSummaryIssues_def)
  from getSummaryIssues_result[OF g] r1 updateLoop_ok[OF l] show ?thesis
    by auto
qed

lemma updateSummaryIssues_err:
  assumes "updateSummaryIssues a P opts ls st = (Some err, st')"
  shows "\<exists>pre c. calls st' = calls st @ pre @ [c] \<and> succeeded a (calls st) pre \<and>
     a (calls st @ pre) c = Inl err \<and>
     (case a (calls st) (summaryQuery P (user opts) ls) of
        Inl e \<Rightarrow> pre = [] \<and> c = summaryQuery P (user opts) ls \<and> updated st' = updated st
      | Inr issues \<Rightarrow> \<exists>k bodies. k < length issues \<and> length bodies = k \<and>
           updated st' = updated st @ zip (map graphqlIssue.ID (take k issues)) bodies)"
proof -
  obtain r1 st1 where g: "getSummaryIssues a P (user opts) ls st = (r1, st1)"
    by (cases "getSummaryIssues a P (user opts) ls st")
  note q = getSummaryIssues_result[OF g]
  show ?thesis
  proof (cases r1)
    case (Inl e)
    with assms g have "e = err" "st' = st1"
      by (auto simp: updateSummaryIssues_def)
    with q Inl show ?thesis
      by (intro exI[of _ "[]"] exI[of _ "summaryQuery P (user opts) ls"]) simp
  next
    case (Inr issues)
    with assms g have l: "updateLoop a P opts issues st1 = (Some err, st')"
      by (auto simp: updateSummaryIssues_def)
    from updateLoop_err[OF l] obtain pre c k bodies where
      "calls st' = calls st1 @ pre @ [c]" "succeeded a (calls st1) pre"
      "a (calls st1 @ pre) c = Inl err" "k < length issues" "length bodies = k"
      "updated st' = updated st1 @ zip (map graphqlIssue.ID (take k issues)) bodies"
      by blast
    with q Inr show ?thesis
      by (intro exI[of _ "summaryQuery P (user opts) ls # pre"] exI[of _ c]) auto
  qed
qed

lemma updateSummaryIssue_extends:
  assumes "updateSummaryIssue a P opts i st = (r, st')"
  shows "\<exists>new newU. calls st' = calls st @ new \<and> updated st' = updated st @ newU \<and>
     length newU \<le> 1 \<and> (\<forall>q. SummaryIssues q \<notin> set new)"
proof (cases r)
  case None
  from updateSummaryIssue_ok[OF assms[unfolded None]] obtain src where
    "calls st' = calls st @ srcQuery P (user opts) (labels i) @ [UpdateIssue (id' i) (renderSummary P opts i src)]"
    "updated st' = updated st @ [(id' i, renderSummary P opts i src)]"
    by blast
  then show ?thesis
    by (intro exI[of _ "srcQuery P (user opts) (labels i) @ [UpdateIssue (id' i) (renderSummary P opts i src)]"]
              exI[of _ "[(id' i, renderSummary P opts i src)]"]) (simp add: srcQuery_no_summary)
next
  case (Some err)
  from updateSummaryIssue_err[OF assms[unfolded Some]] obtain pre c where
    "calls st' = calls st @ pre @ [c]" "updated st' = updated st"
    "\<forall>q. SummaryIssues q \<notin> set (pre @ [c])"
    by blast
  then show ?thesis
    by (intro exI[of _ "pre @ [c]"] exI[of _ "[]"]) simp
qed

lemma updateSummaryIssues_extends:
  assumes "updateSummaryIssues a P opts ls st = (r, st')"
  shows "\<exists>new newU. calls st' = calls st @ new \<and> updated st' = updated st @ newU"
proof (cases r)
  case None
  from updateSummaryIssues_ok[OF assms[unfolded None]] show ?thesis
    by blast
next
  case (Some err)
  from updateSummaryIssues_err[OF assms[unfolded Some]] obtain pre c where
    p: "calls st' = calls st @ pre @ [c]"
    and u: "(case a (calls st) (summaryQuery P (user opts) ls) of
        Inl e \<Rightarrow> pre = [] \<and> c = summaryQuery P (user opts) ls \<and> updated st' = updated st
      | Inr issues \<Rightarrow> \<exists>k bodies. k < length issues \<and> length bodies = k \<and>
           updated st' = updated st @ zip (map graphqlIssue.ID (take k issues)) bodies)"
    by blast
  from u obtain newU where "updated st' = updated st @ newU"
    by (auto split: sum.splits)
  with p show ?thesis
    by blast
qed


lemma directUpdate_ok:
  assumes "directUpdate a P opts ei st = (None, st1)"
  shows "\<exists>new. calls st1 = calls st @ new \<and> succeeded a (calls st) new"
proof (cases "contains (restIssue.Labels ei) ''summary'' \<and>
    isany (Action (event opts)) [''edited'', ''labeled'', ''unlabeled'', ''opened'']")
  case True
  with assms have "updateSummaryIssue a P opts (issueOfEvent ei) st = (None, st1)"
    by (simp add: directUpdate_def del: isany.simps)
  from updateSummaryIssue_ok[OF this] show ?thesis
    by blast
next
  case False
  with assms have "st1 = st"
    by (auto simp: directUpdate_def simp del: isany.simps)
  then show ?thesis
    by (intro exI[of _ "[]"]) simp
qed

lemma directUpdate_err:
  assumes "directUpdate a P opts ei st = (Some err, st1)"
  shows "\<exists>pre c. calls st1 = calls st @ pre @ [c] \<and> succeeded a (calls st) pre \<and>
     a (calls st @ pre) c = Inl err"
proof -
  from assms have "updateSummaryIssue a P opts (issueOfEvent ei) st = (Some err, st1)"
    by (auto simp: directUpdate_def simp del: isany.simps split: if_splits)
  from updateSummaryIssue_err[OF this] show ?thesis
    by blast
qed

lemma testableMain_issues:
  assumes "event.Name (event opts) = ''issues''" and "Issue (event opts) = Some ei"
  shows "testableMain a P (Inr opts) st =
     (case directUpdate a P opts ei st of
        (Some err, st1) \<Rightarrow> (Failure err, st1)
      | (None, st1) \<Rightarrow> actionSwitch a P opts ei st1)"
  using assms by (simp add: testableMain_def Let_def)

lemma actionSwitch_failure:
  assumes "actionSwitch a P opts ei st = (Failure err, st')"
  shows "\<exists>ls. updateSummaryIssues a P opts ls st = (Some err, st')"
  using assms
  by (auto simp: actionSwitch_def Let_def returned_eq split: if_splits option.splits)

lemma testableMain_failure:
  assumes "testableMain a P (Inr opts) st = (Failure err, st')"
  shows "\<exists>pre c. calls st' = calls st @ pre @ [c] \<and> succeeded a (calls st) pre \<and>
     a (calls st @ pre) c = Inl err"
proof -
  consider (issues) "event.Name (event opts) = ''issues''"
    | (comment) "event.Name (event opts) \<noteq> ''issues''" "event.Name (event opts) = ''issue_comment''"
    | (other) "event.Name (event opts) \<noteq> ''issues''" "event.Name (event opts) \<noteq> ''issue_comment''"
    by blast
  then show ?thesis
  proof cases
    case issues
    with assms obtain ei where ei: "Issue (event opts) = Some ei"
      by (cases "Issue (event opts)") (auto simp: testableMain_def Let_def)
    obtain r1 st1 where d: "directUpdate a P opts ei st = (r1, st1)"
      by (cases "directUpdate a P opts ei st")
    show ?thesis
    proof (cases r1)
      case None
      with assms d have "actionSwitch a P opts ei st1 = (Failure err, st')"
        by (simp add: testableMain_issues[OF issues ei])
      from actionSwitch_failure[OF this] obtain ls where
        "updateSummaryIssues a P opts ls st1 = (Some err, st')"
        by blast
      from updateSummaryIssues_err[OF this] obtain pre c where
        p: "calls st' = calls st1 @ pre @ [c]" "succeeded a (calls st1) pre"
           "a (calls st1 @ pre) c = Inl err"
        by blast
      from directUpdate_ok[OF d[unfolded None]] obtain new where
        n: "calls st1 = calls st @ new" "succeeded a (calls st) new"
        by blast
      from p n show ?thesis
        by (intro exI[of _ "new @ pre"] exI[of _ c]) (simp add: succeeded_append)
    next
      case (Some e)
      with assms d have "e = err" "st' = st1"
        by (simp_all add: testableMain_issues[OF issues ei])
      with directUpdate_err[OF d[unfolded Some]] show ?thesis
        by simp
    qed
  next
    case comment
    with assms obtain ls where "updateSummaryIssues a P opts ls st = (Some err, st')"
      by (auto simp: testableMain_def Let_def returned_eq split: option.splits if_splits)
    from updateSummaryIssues_err[OF this] show ?thesis
      by blast
  next
    case other
    with assms show ?thesis
      by (simp add: testableMain_def Let_def)
  qed
qed

lemma updateLoop_append:
  "updateLoop a P opts (xs @ ys) st =
     (case updateLoop a P opts xs st of
        (Some err, st') \<Rightarrow> (Some err, st')
      | (None, st') \<Rightarrow> updateLoop a P opts ys st')"
  by (induction xs arbitrary: st) (auto split: prod.splits option.splits)

lemma updateSummaryIssue_search_fails:
  assumes "queryFilter P (labels i) \<noteq> []"
    and "a (calls st) (SearchIssues (''user:'' @ user opts @ '' '' @ queryFilter P (labels i))) = Inl err"
  shows "updateSummaryIssue a P opts i st =
     (Some err,
      \<lparr>calls = calls st @ [SearchIssues (''user:'' @ user opts @ '' '' @ queryFilter P (labels i))],
       updated = updated st\<rparr>)"
  using assms
  by (simp add: updateSummaryIssue_def generateIssueSummary_def summarizedIssues_def
      searchIssues_def graphql_def Let_def)

lemma updateSummaryIssue_update_fails:
  assumes "if queryFilter P (labels i) = [] then src = []
           else a (calls st) (SearchIssues (''user:'' @ user opts @ '' '' @ queryFilter P (labels i))) = Inr src"
    and "a (calls st @ srcQuery P (user opts) (labels i))
           (UpdateIssue (id' i) (renderSummary P opts i src)) = Inl err"
  shows "updateSummaryIssue a P opts i st =
     (Some err,
      \<lparr>calls = calls st @ srcQuery P (user opts) (labels i) @
                [UpdateIssue (id' i) (renderSummary P opts i src)],
       updated = updated st\<rparr>)"
proof (cases "queryFilter P (labels i) = []")
  case True
  with assms show ?thesis
    by (simp add: updateSummaryIssue_def generateIssueSummary_def summarizedIssues_def
        graphql_def Let_def srcQuery_def)
next
  case False
  with assms show ?thesis
    by (simp add: updateSummaryIssue_def generateIssueSummary_def summarizedIssues_def
        searchIssues_def graphql_def Let_def srcQuery_def)
qed

lemma updateSummaryIssues_search_fails:
  assumes "a (calls st) (summaryQuery P (user opts) ls) = Inl err"
  shows "updateSummaryIssues a P opts ls st =
     (Some err, \<lparr>calls = calls st @ [summaryQuery P (user opts) ls], updated = updated st\<rparr>)"
  using assms
  by (simp add: updateSummaryIssues_def getSummaryIssues_def graphql_def Let_def summaryQuery_def)

lemma updateSummaryIssues_found:
  assumes "a (calls st) (summaryQuery P (user opts) ls) = Inr issues"
  shows "updateSummaryIssues a P opts ls st =
     updateLoop a P opts issues
       \<lparr>calls = calls st @ [summaryQuery P (user opts) ls], updated = updated st\<rparr>"
  using assms
  by (simp add: updateSummaryIssues_def getSummaryIssues_def graphql_def Let_def summaryQuery_def)

lemma updateLoop_fails_at:
  assumes "k < length issues"
    and "updateLoop a P opts (take k issues) st = (None, stk)"
    and "updateSummaryIssue a P opts (issueOfNode (issues ! k)) stk = (Some err, st')"
  shows "updateLoop a P opts issues st = (Some err, st')"
proof -
  from assms(1) have "issues = take k issues @ (issues ! k # drop (Suc k) issues)"
    by (simp add: id_take_nth_drop[symmetric])
  then have "updateLoop a P opts issues st =
      updateLoop a P opts (take k issues @ (issues ! k # drop (Suc k) issues)) st"
    by simp
  also have "\<dots> = updateLoop a P opts (issues ! k # drop (Suc k) issues) stk"
    using assms(2) by (simp add: updateLoop_append)
  also have "\<dots> = (Some err, st')"
    using assms(3) by simp
  finally show ?thesis .
qed

lemma not_succeeded_snoc:
  "a (tr @ pre) c = Inl err \<Longrightarrow> \<not> succeeded a tr (pre @ [c])"
  by (simp add: succeeded_append)

lemma updateSummaryIssues_total:
  "\<exists>new. calls (snd (updateSummaryIssues a P opts ls st)) = calls st @ new \<and>
     (succeeded a (calls st) new \<longrightarrow> fst (updateSummaryIssues a P opts ls st) = None) \<and>
     (\<not> succeeded a (calls st) new \<longrightarrow>
        (\<exists>pre c err. new = pre @ [c] \<and> succeeded a (calls st) pre \<and>
           a (calls st @ pre) c = Inl err \<and>
           fst (updateSummaryIssues a P opts ls st) = Some err \<and>
           (case a (calls st) (summaryQuery P (user opts) ls) of
              Inl e \<Rightarrow> pre = [] \<and> updated (snd (updateSummaryIssues a P opts ls st)) = updated st
            | Inr issues \<Rightarrow> \<exists>k bodies. k < length issues \<and> length bodies = k \<and>
                 updated (snd (updateSummaryIssues a P opts ls st)) =
                   updated st @ zip (map graphqlIssue.ID (take k issues)) bodies)))"
proof -
  obtain r st' where R: "updateSummaryIssues a P opts ls st = (r, st')"
    by (cases "updateSummaryIssues a P opts ls st")
  show ?thesis
  proof (cases r)
    case None
    from updateSummaryIssues_ok[OF R[unfolded None]] obtain issues srcs where
      "calls st' = calls st @ summaryQuery P (user opts) ls # regenerationCalls P opts issues srcs"
      "succeeded a (calls st) (summaryQuery P (user opts) ls # regenerationCalls P opts issues srcs)"
      by blast
    moreover have "snd (updateSummaryIssues a P opts ls st) = st'"
      and "fst (updateSummaryIssues a P opts ls st) = None"
      using R None by simp_all
    ultimately show ?thesis
      by - (rule exI[of _ "summaryQuery P (user opts) ls # regenerationCalls P opts issues srcs"],
            simp del: succeeded_Cons)
  next
    case (Some err)
    from updateSummaryIssues_err[OF R[unfolded Some]] obtain pre c where
      p: "calls st' = calls st @ pre @ [c]" "succeeded a (calls st) pre"
         "a (calls st @ pre) c = Inl err"
      and u: "(case a (calls st) (summaryQuery P (user opts) ls) of
          Inl e \<Rightarrow> pre = [] \<and> c = summaryQuery P (user opts) ls \<and> updated st' = updated st
        | Inr issues \<Rightarrow> \<exists>k bodies. k < length issues \<and> length bodies = k \<and>
             updated st' = updated st @ zip (map graphqlIssue.ID (take k issues)) bodies)"
      by blast
    from u have u': "(case a (calls st) (summaryQuery P (user opts) ls) of
          Inl e \<Rightarrow> pre = [] \<and> updated st' = updated st
        | Inr issues \<Rightarrow> \<exists>k bodies. k < length issues \<and> length bodies = k \<and>
             updated st' = updated st @ zip (map graphqlIssue.ID (take k issues)) bodies)"
      by (auto split: sum.splits)
    have n: "\<not> succeeded a (calls st) (pre @ [c])"
      using not_succeeded_snoc[of a "calls st" pre c err] p(3) by simp
    have sR: "snd (updateSummaryIssues a P opts ls st) = st'"
      and fR: "fst (updateSummaryIssues a P opts ls st) = Some err"
      using R Some by simp_all
    have 1: "calls st' = calls st @ (pre @ [c])"
      using p(1) by simp
    have 3: "\<exists>pre' c' err'. pre @ [c] = pre' @ [c'] \<and> succeeded a (calls st) pre' \<and>
           a (calls st @ pre') c' = Inl err' \<and> Some err = Some err' \<and>
           (case a (calls st) (summaryQuery P (user opts) ls) of
              Inl e \<Rightarrow> pre' = [] \<and> updated st' = updated st
            | Inr issues \<Rightarrow> \<exists>k bodies. k < length issues \<and> length bodies = k \<and>
                 updated st' = updated st @ zip (map graphqlIssue.ID (take k issues)) bodies)"
      using p(2,3) u' by blast
    show ?thesis
      unfolding sR fR using 1 n 3 by - (rule exI[of _ "pre @ [c]"], blast)
  qed
qed

lemma actionSwitch_no_failure:
  assumes "actionSwitch a P opts ei st = (out, st')" and "\<forall>err. out \<noteq> Failure err"
  shows "\<exists>new. calls st' = calls st @ new \<and> succeeded a (calls st) new"
proof -
  have r: "\<exists>new. calls st' = calls st @ new \<and> succeeded a (calls st) new"
    if "returned (updateSummaryIssues a P opts ls st) = (out, st')" for ls
  proof -
    obtain r2 st2 where c: "updateSummaryIssues a P opts ls st = (r2, st2)"
      by (cases "updateSummaryIssues a P opts ls st")
    with that assms(2) have "r2 = None" "st2 = st'"
      by (cases r2; auto)+
    with updateSummaryIssues_ok[of a P opts ls st st'] c show ?thesis
      by blast
  qed
  have z: "\<exists>new. calls st' = calls st @ new \<and> succeeded a (calls st) new" if "st' = st"
    using that by (intro exI[of _ "[]"]) simp
  consider (lab) "Action (event opts) = ''labeled'' \<or> Action (event opts) = ''unlabeled''"
    | (opened) "Action (event opts) = ''opened''"
    | (other) "Action (event opts) \<noteq> ''labeled''" "Action (event opts) \<noteq> ''unlabeled''"
        "Action (event opts) \<noteq> ''opened''"
    by blast
  then show ?thesis
  proof cases
    case lab
    show ?thesis
    proof (cases "Label (event opts)")
      case None
      with lab assms(1) have "st' = st"
        by (auto simp: actionSwitch_def)
      then show ?thesis by (rule z)
    next
      case (Some lb)
      show ?thesis
      proof (cases "label.Name lb = ''summary''")
        case True
        with lab Some assms(1) have "st' = st"
          by (auto simp: actionSwitch_def)
        then show ?thesis by (rule z)
      next
        case False
        with lab Some assms(1) have "returned (updateSummaryIssues a P opts [lb] st) = (out, st')"
          by (auto simp: actionSwitch_def)
        then show ?thesis by (rule r)
      qed
    qed
  next
    case opened
    show ?thesis
    proof (cases "nonSummaryLabels (restIssue.Labels ei) = []")
      case True
      with opened assms(1) have "st' = st"
        by (simp add: actionSwitch_def)
      then show ?thesis by (rule z)
    next
      case False
      with opened assms(1)
      have "returned (updateSummaryIssues a P opts (nonSummaryLabels (restIssue.Labels ei)) st) = (out, st')"
        by (simp add: actionSwitch_def)
      then show ?thesis by (rule r)
    qed
  next
    case other
    with assms(1) have "st' = st"
      by (simp add: actionSwitch_def)
    then show ?thesis by (rule z)
  qed
qed

lemma testableMain_no_failure:
  assumes "testableMain a P (Inr opts) st = (out, st')" and "\<forall>err. out \<noteq> Failure err"
  shows "\<exists>new. calls st' = calls st @ new \<and> succeeded a (calls st) new"
proof -
  have z: "\<exists>new. calls st' = calls st @ new \<and> succeeded a (calls st) new" if "st' = st"
    using that by (intro exI[of _ "[]"]) simp
  consider (issues) "event.Name (event opts) = ''issues''"
    | (comment) "event.Name (event opts) \<noteq> ''issues''" "event.Name (event opts) = ''issue_comment''"
    | (other) "event.Name (event opts) \<noteq> ''issues''" "event.Name (event opts) \<noteq> ''issue_comment''"
    by blast
  then show ?thesis
  proof cases
    case issues
    show ?thesis
    proof (cases "Issue (event opts)")
      case None
      with issues assms(1) have "st' = st"
        by (simp add: testableMain_def Let_def)
      then show ?thesis by (rule z)
    next
      case (Some ei)
      obtain r1 st1 where d: "directUpdate a P opts ei st = (r1, st1)"
        by (cases "directUpdate a P opts ei st")
      with assms have r1: "r1 = None"
        by (cases r1) (auto simp: testableMain_issues[OF issues Some])
      with d assms(1) have s: "actionSwitch a P opts ei st1 = (out, st')"
        by (simp add: testableMain_issues[OF issues Some])
      from directUpdate_ok[OF d[unfolded r1]] obtain n1 where
        n1: "calls st1 = calls st @ n1" "succeeded a (calls st) n1"
        by blast
      from actionSwitch_no_failure[OF s assms(2)] obtain n2 where
        n2: "calls st' = calls st1 @ n2" "succeeded a (calls st1) n2"
        by blast
      from n1 n2 show ?thesis
        by (intro exI[of _ "n1 @ n2"]) (simp add: succeeded_append)
    qed
  next
    case comment
    show ?thesis
    proof (cases "Issue (event opts)")
      case None
      with comment assms(1) have "st' = st"
        by (simp add: testableMain_def Let_def)
      then show ?thesis by (rule z)
    next
      case (Some ei)
      show ?thesis
      proof (cases "nonSummaryLabels (restIssue.Labels ei) = []")
        case True
        with comment Some assms(1) have "st' = st"
          by (simp add: testableMain_def Let_def)
        then show ?thesis by (rule z)
      next
        case False
        with comment Some assms(1)
        have t: "returned (updateSummaryIssues a P opts (nonSummaryLabels (restIssue.Labels ei)) st) = (out, st')"
          by (simp add: testableMain_def Let_def)
        obtain r2 st2 where c: "updateSummaryIssues a P opts (nonSummaryLabels (restIssue.Labels ei)) st = (r2, st2)"
          by (cases "updateSummaryIssues a P opts (nonSummaryLabels (restIssue.Labels ei)) st")
        with t assms(2) have "r2 = None" "st2 = st'"
          by (cases r2; auto)+
        with updateSummaryIssues_ok[of a P opts "nonSummaryLabels (restIssue.Labels ei)" st st'] c
        show ?thesis
          by blast
      qed
    qed
  next
    case other
    with assms(1) have "st' = st"
      by (simp add: testableMain_def Let_def)
    then show ?thesis by (rule z)
  qed
qed

lemma testableMain_total:
  "\<exists>new. calls (snd (testableMain a P (Inr opts) st)) = calls st @ new \<and>
     (succeeded a (calls st) new \<longrightarrow> (\<forall>err. fst (testableMain a P (Inr opts) st) \<noteq> Failure err)) \<and>
     (\<not> succeeded a (calls st) new \<longrightarrow>
        (\<exists>pre c err. new = pre @ [c] \<and> succeeded a (calls st) pre \<and>
           a (calls st @ pre) c = Inl err \<and>
           fst (testableMain a P (Inr opts) st) = Failure err))"
proof -
  obtain out st' where T: "testableMain a P (Inr opts) st = (out, st')"
    by (cases "testableMain a P (Inr opts) st")
  show ?thesis
  proof (cases "\<exists>err. out = Failure err")
    case False
    then have "\<forall>err. out \<noteq> Failure err"
      by simp
    from testableMain_no_failure[OF T this] obtain new where
      "calls st' = calls st @ new" "succeeded a (calls st) new"
      by blast
    moreover have "snd (testableMain a P (Inr opts) st) = st'"
      and "fst (testableMain a P (Inr opts) st) = out"
      using T by simp_all
    ultimately show ?thesis
      using False by - (rule exI[of _ new], simp)
  next
    case True
    then obtain err where e: "out = Failure err"
      by blast
    from testableMain_failure[OF T[unfolded e]] obtain pre c where
      p: "calls st' = calls st @ pre @ [c]" "succeeded a (calls st) pre"
         "a (calls st @ pre) c = Inl err"
      by blast
    have n: "\<not> succeeded a (calls st) (pre @ [c])"
      using not_succeeded_snoc[of a "calls st" pre c err] p(3) by simp
    have sT: "snd (testableMain a P (Inr opts) st) = st'"
      and fT: "fst (testableMain a P (Inr opts) st) = Failure err"
      using T e by simp_all
    have 1: "calls st' = calls st @ (pre @ [c])"
      using p(1) by simp
    have 3: "\<exists>pre' c' err'. pre @ [c] = pre' @ [c'] \<and> succeeded a (calls st) pre' \<and>
           a (calls st @ pre') c' = Inl err' \<and> Failure err = Failure err'"
      using p(2,3) by blast
    show ?thesis
      unfolding sT fT using 1 n 3 by - (rule exI[of _ "pre @ [c]"], blast)
  qed
qed

text \<open>
  C9: a failing call ends the run with its error. If the summary search is answered with
  an error, \<open>updateSummaryIssues\<close> returns that error after this one call and writes
  nothing. If the search finds \<open>issues\<close>, the first \<open>k\<close> of them are regenerated
  without error, and for the next one the source search or the update is answered with
  an error, then \<open>updateSummaryIssues\<close> returns that error, the failed call is the last
  call made, and the bodies written are those of the first \<open>k\<close> issues: they stay, and
  no later issue is updated. In general, for \<open>updateSummaryIssues\<close> and for a whole run
  of \<open>testableMain\<close>: when all calls made are answered without error the result is not
  an error; when one is answered with an error it is the last call made, all calls
  before it succeeded, and the result is that error, as it is.
\<close>

theorem failure_aborts_run:
  "(a (calls st)
      (SummaryIssues (''is:open user:'' @ user opts @ '' label:summary '' @ queryFilter P ls)) =
      Inl err \<longrightarrow>
    updateSummaryIssues a P opts ls st =
      (Some err,
       \<lparr>calls = calls st @
          [SummaryIssues (''is:open user:'' @ user opts @ '' label:summary '' @ queryFilter P ls)],
        updated = updated st\<rparr>)) \<and>
   (a (calls st)
      (SummaryIssues (''is:open user:'' @ user opts @ '' label:summary '' @ queryFilter P ls)) =
      Inr issues \<and>
    k < length issues \<and>
    updateLoop a P opts (take k issues)
      \<lparr>calls = calls st @
         [SummaryIssues (''is:open user:'' @ user opts @ '' label:summary '' @ queryFilter P ls)],
       updated = updated st\<rparr> = (None, stk) \<and>
    ((queryFilter P (graphqlIssue.Labels (issues ! k)) \<noteq> [] \<and>
      a (calls stk)
        (SearchIssues (''user:'' @ user opts @ '' '' @
                       queryFilter P (graphqlIssue.Labels (issues ! k)))) = Inl err) \<or>
     (\<exists>src.
        (if queryFilter P (graphqlIssue.Labels (issues ! k)) = [] then src = []
         else a (calls stk)
                (SearchIssues (''user:'' @ user opts @ '' '' @
                               queryFilter P (graphqlIssue.Labels (issues ! k)))) = Inr src) \<and>
        a (calls stk @ srcQuery P (user opts) (graphqlIssue.Labels (issues ! k)))
          (UpdateIssue (graphqlIssue.ID (issues ! k))
             (renderSummary P opts (issueOfNode (issues ! k)) src)) = Inl err)) \<longrightarrow>
    (\<exists>pre c srcs.
       updateSummaryIssues a P opts ls st =
         (Some err, \<lparr>calls = calls stk @ pre @ [c], updated = updated stk\<rparr>) \<and>
       a (calls stk @ pre) c = Inl err \<and>
       length srcs = k \<and>
       updated stk = updated st @ regenerationWrites P opts (take k issues) srcs)) \<and>
   (\<exists>new. calls (snd (updateSummaryIssues a P opts ls st)) = calls st @ new \<and>
      (succeeded a (calls st) new \<longrightarrow> fst (updateSummaryIssues a P opts ls st) = None) \<and>
      (\<not> succeeded a (calls st) new \<longrightarrow>
         (\<exists>pre c e. new = pre @ [c] \<and> succeeded a (calls st) pre \<and>
            a (calls st @ pre) c = Inl e \<and>
            fst (updateSummaryIssues a P opts ls st) = Some e \<and>
            (case a (calls st)
                    (SummaryIssues (''is:open user:'' @ user opts @ '' label:summary '' @
                                    queryFilter P ls)) of
               Inl e' \<Rightarrow> pre = [] \<and> updated (snd (updateSummaryIssues a P opts ls st)) = updated st
             | Inr found \<Rightarrow> \<exists>n bodies. n < length found \<and> length bodies = n \<and>
                  updated (snd (updateSummaryIssues a P opts ls st)) =
                    updated st @ zip (map graphqlIssue.ID (take n found)) bodies)))) \<and>
   (\<exists>new. calls (snd (testableMain a P (Inr opts) st)) = calls st @ new \<and>
      (succeeded a (calls st) new \<longrightarrow>
         (\<forall>e. fst (testableMain a P (Inr opts) st) \<noteq> Failure e)) \<and>
      (\<not> succeeded a (calls st) new \<longrightarrow>
         (\<exists>pre c e. new = pre @ [c] \<and> succeeded a (calls st) pre \<and>
            a (calls st @ pre) c = Inl e \<and>
            fst (testableMain a P (Inr opts) st) = Failure e)))"
proof (intro conjI impI)
  assume "a (calls st)
      (SummaryIssues (''is:open user:'' @ user opts @ '' label:summary '' @ queryFilter P ls)) = Inl err"
  then show "updateSummaryIssues a P opts ls st =
      (Some err,
       \<lparr>calls = calls st @
          [SummaryIssues (''is:open user:'' @ user opts @ '' label:summary '' @ queryFilter P ls)],
        updated = updated st\<rparr>)"
    using updateSummaryIssues_search_fails[of a st P opts ls err] by (simp add: summaryQuery_def)
next
  let ?Q = "SummaryIssues (''is:open user:'' @ user opts @ '' label:summary '' @ queryFilter P ls)"
  let ?st1 = "\<lparr>calls = calls st @ [?Q], updated = updated st\<rparr>"
  let ?i = "issues ! k"
  let ?q = "SearchIssues (''user:'' @ user opts @ '' '' @ queryFilter P (graphqlIssue.Labels ?i))"
  assume h: "a (calls st) ?Q = Inr issues \<and> k < length issues \<and>
    updateLoop a P opts (take k issues) ?st1 = (None, stk) \<and>
    ((queryFilter P (graphqlIssue.Labels ?i) \<noteq> [] \<and> a (calls stk) ?q = Inl err) \<or>
     (\<exists>src.
        (if queryFilter P (graphqlIssue.Labels ?i) = [] then src = []
         else a (calls stk) ?q = Inr src) \<and>
        a (calls stk @ srcQuery P (user opts) (graphqlIssue.Labels ?i))
          (UpdateIssue (graphqlIssue.ID ?i) (renderSummary P opts (issueOfNode ?i) src)) = Inl err))"
  then have found: "a (calls st) ?Q = Inr issues" and k: "k < length issues"
    and pre: "updateLoop a P opts (take k issues) ?st1 = (None, stk)"
    by simp_all
  have lab: "labels (issueOfNode ?i) = graphqlIssue.Labels ?i"
    and ident: "id' (issueOfNode ?i) = graphqlIssue.ID ?i"
    by (simp_all add: issueOfNode_def)
  from h have "\<exists>pre c. updateSummaryIssue a P opts (issueOfNode ?i) stk =
      (Some err, \<lparr>calls = calls stk @ pre @ [c], updated = updated stk\<rparr>) \<and>
      a (calls stk @ pre) c = Inl err"
  proof (elim conjE disjE exE)
    assume "queryFilter P (graphqlIssue.Labels ?i) \<noteq> []" and f: "a (calls stk) ?q = Inl err"
    with updateSummaryIssue_search_fails[of P "issueOfNode ?i" a stk opts err] lab
    have "updateSummaryIssue a P opts (issueOfNode ?i) stk =
        (Some err, \<lparr>calls = calls stk @ [] @ [?q], updated = updated stk\<rparr>)"
      by simp
    with f show ?thesis
      by (intro exI[of _ "[]"] exI[of _ ?q]) simp
  next
    fix src
    assume s: "if queryFilter P (graphqlIssue.Labels ?i) = [] then src = []
         else a (calls stk) ?q = Inr src"
      and f: "a (calls stk @ srcQuery P (user opts) (graphqlIssue.Labels ?i))
          (UpdateIssue (graphqlIssue.ID ?i) (renderSummary P opts (issueOfNode ?i) src)) = Inl err"
    from s have s': "if queryFilter P (labels (issueOfNode ?i)) = [] then src = []
         else a (calls stk)
                (SearchIssues (''user:'' @ user opts @ '' '' @
                               queryFilter P (labels (issueOfNode ?i)))) = Inr src"
      unfolding lab .
    from f have f': "a (calls stk @ srcQuery P (user opts) (labels (issueOfNode ?i)))
          (UpdateIssue (id' (issueOfNode ?i)) (renderSummary P opts (issueOfNode ?i) src)) = Inl err"
      unfolding lab ident .
    have "updateSummaryIssue a P opts (issueOfNode ?i) stk =
        (Some err,
         \<lparr>calls = calls stk @ srcQuery P (user opts) (graphqlIssue.Labels ?i) @
                   [UpdateIssue (graphqlIssue.ID ?i) (renderSummary P opts (issueOfNode ?i) src)],
          updated = updated stk\<rparr>)"
      using updateSummaryIssue_update_fails[OF s' f'] unfolding lab ident .
    with f show ?thesis
      by (intro exI[of _ "srcQuery P (user opts) (graphqlIssue.Labels ?i)"]
                exI[of _ "UpdateIssue (graphqlIssue.ID ?i) (renderSummary P opts (issueOfNode ?i) src)"])
         simp
  qed
  then obtain p c where
    u: "updateSummaryIssue a P opts (issueOfNode ?i) stk =
        (Some err, \<lparr>calls = calls stk @ p @ [c], updated = updated stk\<rparr>)"
    and e: "a (calls stk @ p) c = Inl err"
    by blast
  have "updateSummaryIssues a P opts ls st = updateLoop a P opts issues ?st1"
    using updateSummaryIssues_found[of a st P opts ls issues] found by (simp add: summaryQuery_def)
  with updateLoop_fails_at[OF k pre u]
  have r: "updateSummaryIssues a P opts ls st =
      (Some err, \<lparr>calls = calls stk @ p @ [c], updated = updated stk\<rparr>)"
    by simp
  from updateLoop_ok[OF pre] obtain srcs where
    "length srcs = length (take k issues)"
    "updated stk = updated ?st1 @ regenerationWrites P opts (take k issues) srcs"
    by blast
  with k have w: "length srcs = k"
    "updated stk = updated st @ regenerationWrites P opts (take k issues) srcs"
    by simp_all
  from r e w
  show "\<exists>pre c srcs.
       updateSummaryIssues a P opts ls st =
         (Some err, \<lparr>calls = calls stk @ pre @ [c], updated = updated stk\<rparr>) \<and>
       a (calls stk @ pre) c = Inl err \<and>
       length srcs = k \<and>
       updated stk = updated st @ regenerationWrites P opts (take k issues) srcs"
    by blast
next
  from updateSummaryIssues_total[of a P opts ls st]
  show "\<exists>new. calls (snd (updateSummaryIssues a P opts ls st)) = calls st @ new \<and>
      (succeeded a (calls st) new \<longrightarrow> fst (updateSummaryIssues a P opts ls st) = None) \<and>
      (\<not> succeeded a (calls st) new \<longrightarrow>
         (\<exists>pre c e. new = pre @ [c] \<and> succeeded a (calls st) pre \<and>
            a (calls st @ pre) c = Inl e \<and>
            fst (updateSummaryIssues a P opts ls st) = Some e \<and>
            (case a (calls st)
                    (SummaryIssues (''is:open user:'' @ user opts @ '' label:summary '' @
                                    queryFilter P ls)) of
               Inl e' \<Rightarrow> pre = [] \<and> updated (snd (updateSummaryIssues a P opts ls st)) = updated st
             | Inr found \<Rightarrow> \<exists>n bodies. n < length found \<and> length bodies = n \<and>
                  updated (snd (updateSummaryIssues a P opts ls st)) =
                    updated st @ zip (map graphqlIssue.ID (take n found)) bodies)))"
    unfolding summaryQuery_def .
next
  from testableMain_total[of a P opts st]
  show "\<exists>new. calls (snd (testableMain a P (Inr opts) st)) = calls st @ new \<and>
      (succeeded a (calls st) new \<longrightarrow>
         (\<forall>e. fst (testableMain a P (Inr opts) st) \<noteq> Failure e)) \<and>
      (\<not> succeeded a (calls st) new \<longrightarrow>
         (\<exists>pre c e. new = pre @ [c] \<and> succeeded a (calls st) pre \<and>
            a (calls st @ pre) c = Inl e \<and>
            fst (testableMain a P (Inr opts) st) = Failure e))" .
qed

lemmas run_defs =
  testableMain_def directUpdate_def actionSwitch_def updateSummaryIssues_def
  getSummaryIssues_def updateSummaryIssue_def generateIssueSummary_def summarizedIssues_def
  searchIssues_def graphql_def queryFilter_def nonSummaryLabels_def issueOfNode_def
  issueOfEvent_def Let_def

lemmas ex_defs =
  exLabeled_def exLabeledSummary_def exEdited_def exRestSource_def exRestSummary_def
  exSummary_def exSource_def exPlatform_def lbl_def st0_def

lemma exApiRefusing_error: "exApiRefusing tr c = Inl e \<Longrightarrow> e = ''graphql error: forbidden''"
  by (cases c) (simp_all add: exApiRefusing_def)

theorem failure_aborts_run_witness:
  "fst (updateSummaryIssues exApiDown exPlatform (exLabeled exRestSource) [lbl ''bug''] st0) =
     Some ''connection refused'' \<and>
   calls (snd (updateSummaryIssues exApiDown exPlatform (exLabeled exRestSource) [lbl ''bug''] st0)) =
     [summaryQuery exPlatform ''octo'' [lbl ''bug'']] \<and>
   updated (snd (updateSummaryIssues exApiDown exPlatform (exLabeled exRestSource) [lbl ''bug''] st0)) =
     [] \<and>
   fst (updateSummaryIssues exApiOnce exPlatform (exLabeled exRestSource) [lbl ''bug''] st0) =
     Some ''rate limited'' \<and>
   map fst (updated (snd (updateSummaryIssues exApiOnce exPlatform (exLabeled exRestSource)
                            [lbl ''bug''] st0))) = [''S''] \<and>
   fst (testableMain exApiRefusing exPlatform (Inr (exLabeled exRestSource)) st0) =
     Failure ''graphql error: forbidden''"
proof -
  let ?o = "exLabeled exRestSource"
  let ?Q = "SummaryIssues (''is:open user:'' @ user ?o @ '' label:summary '' @
                           queryFilter exPlatform [lbl ''bug''])"
  let ?st1 = "\<lparr>calls = calls st0 @ [?Q], updated = updated st0\<rparr>"
  let ?issues = "[exSummary, exSummary2]"
  let ?L = "updateLoop exApiOnce exPlatform ?o (take 1 ?issues) ?st1"
  let ?t = "testableMain exApiRefusing exPlatform (Inr ?o) st0"
  note inst = failure_aborts_run[where P = exPlatform and opts = "?o" and ls = "[lbl ''bug'']"
      and st = st0]

  have d: "exApiDown (calls st0) ?Q = Inl ''connection refused''"
    by (simp add: exApiDown_def)
  from inst[where a = exApiDown and err = "''connection refused''", THEN conjunct1] d
  have 1: "updateSummaryIssues exApiDown exPlatform ?o [lbl ''bug''] st0 =
      (Some ''connection refused'', ?st1)"
    by blast

  have found: "exApiOnce (calls st0) ?Q = Inr ?issues"
    by (simp add: exApiOnce_def)
  have "fst ?L = None"
    by (simp add: run_defs ex_defs exApiOnce_def)
  then have loop: "?L = (None, snd ?L)"
    by (simp add: prod_eq_iff)
  have cs: "calls (snd ?L) =
      [?Q, SearchIssues (''user:'' @ user ?o @ '' '' @
                         queryFilter exPlatform (graphqlIssue.Labels exSummary)),
       UpdateIssue ''S'' (renderSummary exPlatform ?o (issueOfNode exSummary) [exSource])]"
    by (simp add: run_defs ex_defs exApiOnce_def)
  have us: "map fst (updated (snd ?L)) = [''S'']"
    by (simp add: run_defs ex_defs exApiOnce_def)
  have src: "if queryFilter exPlatform (graphqlIssue.Labels (?issues ! 1)) = [] then [exSource] = []
      else exApiOnce (calls (snd ?L))
             (SearchIssues (''user:'' @ user ?o @ '' '' @
                            queryFilter exPlatform (graphqlIssue.Labels (?issues ! 1)))) =
           Inr [exSource]"
    by (simp add: exApiOnce_def queryFilter_def nonSummaryLabels_def exSummary2_def lbl_def)
  have upd: "exApiOnce (calls (snd ?L) @
                 srcQuery exPlatform (user ?o) (graphqlIssue.Labels (?issues ! 1)))
      (UpdateIssue (graphqlIssue.ID (?issues ! 1))
         (renderSummary exPlatform ?o (issueOfNode (?issues ! 1)) [exSource])) =
      Inl ''rate limited''"
    unfolding cs by (simp add: exApiOnce_def srcQuery_def)
  from inst[where a = exApiOnce and err = "''rate limited''" and issues = "?issues" and k = 1
      and stk = "snd ?L", THEN conjunct2, THEN conjunct1] found loop src upd
  obtain pre c where 2: "updateSummaryIssues exApiOnce exPlatform ?o [lbl ''bug''] st0 =
      (Some ''rate limited'',
       \<lparr>calls = calls (snd ?L) @ pre @ [c], updated = updated (snd ?L)\<rparr>)"
    by auto

  from inst[where a = exApiRefusing, THEN conjunct2, THEN conjunct2, THEN conjunct2]
  obtain new where n: "calls (snd ?t) = calls st0 @ new"
    and f: "\<not> succeeded exApiRefusing (calls st0) new \<Longrightarrow>
         \<exists>pre c e. new = pre @ [c] \<and> succeeded exApiRefusing (calls st0) pre \<and>
            exApiRefusing (calls st0 @ pre) c = Inl e \<and> fst ?t = Failure e"
    by blast
  have "calls (snd ?t) =
      [?Q, SearchIssues (''user:'' @ user ?o @ '' '' @
                         queryFilter exPlatform (graphqlIssue.Labels exSummary)),
       UpdateIssue ''S'' (renderSummary exPlatform ?o (issueOfNode exSummary)
                            [exSummary, exSource])]"
    by (simp add: run_defs ex_defs exApiRefusing_def returned_def)
  with n have "new =
      [?Q, SearchIssues (''user:'' @ user ?o @ '' '' @
                         queryFilter exPlatform (graphqlIssue.Labels exSummary)),
       UpdateIssue ''S'' (renderSummary exPlatform ?o (issueOfNode exSummary)
                            [exSummary, exSource])]"
    by (simp add: st0_def)
  then have "\<not> succeeded exApiRefusing (calls st0) new"
    by (simp add: exApiRefusing_def)
  from f[OF this] obtain pre' c' e where "exApiRefusing (calls st0 @ pre') c' = Inl e"
    and "fst ?t = Failure e"
    by blast
  with exApiRefusing_error[of "calls st0 @ pre'" c' e]
  have 3: "fst ?t = Failure ''graphql error: forbidden''"
    by simp

  from 1 2 3 us show ?thesis
    by (simp add: summaryQuery_def exLabeled_def st0_def)
qed



text \<open>
  C8, as stated, asks that no summary issue is updated twice in a run. For the event
  \<open>issues\<close>/\<open>labeled\<close> with the label bug on the summary issue \<open>S\<close>, which carries the
  labels summary and bug, the direct update writes the body of \<open>S\<close>, the summary search
  for bug returns \<open>S\<close>, and the cascade writes the body of \<open>S\<close> again.
\<close>

theorem summary_issue_updated_twice:
  "fst (testableMain exApi exPlatform (Inr (exLabeled exRestSummary)) st0) = Success \<and>
   map fst (updated (snd (testableMain exApi exPlatform (Inr (exLabeled exRestSummary)) st0))) =
     [''S'', ''S'']"
  by (simp add: run_defs ex_defs exApi_def returned_def)

lemma returned_extends:
  assumes "updateSummaryIssues a P opts ls st = (r, st')"
  shows "\<exists>cs ws. calls (snd (returned (updateSummaryIssues a P opts ls st))) = calls st @ cs \<and>
     updated (snd (returned (updateSummaryIssues a P opts ls st))) = updated st @ ws"
  using updateSummaryIssues_extends[OF assms] assms by (cases r) auto

lemma actionSwitch_extends:
  "\<exists>cs ws. calls (snd (actionSwitch a P opts ei st)) = calls st @ cs \<and>
     updated (snd (actionSwitch a P opts ei st)) = updated st @ ws \<and>
     (Action (event opts) = ''edited'' \<longrightarrow> cs = [] \<and> ws = [])"
proof -
  have r: "\<exists>cs ws. calls (snd (returned (updateSummaryIssues a P opts ls st))) = calls st @ cs \<and>
      updated (snd (returned (updateSummaryIssues a P opts ls st))) = updated st @ ws" for ls
    using returned_extends[of a P opts ls st] by (cases "updateSummaryIssues a P opts ls st") blast
  consider (lab) "Action (event opts) = ''labeled'' \<or> Action (event opts) = ''unlabeled''"
    | (opened) "Action (event opts) = ''opened''"
    | (other) "Action (event opts) \<noteq> ''labeled''" "Action (event opts) \<noteq> ''unlabeled''"
        "Action (event opts) \<noteq> ''opened''"
    by blast
  then show ?thesis
  proof cases
    case lab
    then have ne: "Action (event opts) \<noteq> ''edited''"
      by auto
    show ?thesis
    proof (cases "Label (event opts)")
      case None
      with lab ne show ?thesis
        by (simp add: actionSwitch_def)
    next
      case (Some lb)
      with lab ne r[of "[lb]"] show ?thesis
        by (cases "label.Name lb = ''summary''") (simp_all add: actionSwitch_def)
    qed
  next
    case opened
    with r[of "nonSummaryLabels (restIssue.Labels ei)"] show ?thesis
      by (cases "nonSummaryLabels (restIssue.Labels ei) = []") (simp_all add: actionSwitch_def)
  next
    case other
    then show ?thesis
      by (simp add: actionSwitch_def)
  qed
qed

text \<open>
  C8, amended: in a run for an \<open>issues\<close> event whose issue carries the summary label,
  with one of the actions edited, labeled, unlabeled and opened, that issue is
  regenerated from the labels of the event first: the calls and the writes of the direct
  update come before all other calls and writes of the run, and if the direct update
  fails nothing follows. For the action edited nothing follows in any case, so the run
  writes at most one body.
\<close>

theorem direct_update_first:
  assumes "event.Name (event opts) = ''issues''" and "Issue (event opts) = Some ei"
    and "contains (restIssue.Labels ei) ''summary''"
    and "isany (Action (event opts)) [''edited'', ''labeled'', ''unlabeled'', ''opened'']"
  shows "\<exists>r1 st1 cs ws.
     updateSummaryIssue a P opts
       \<lparr>id' = restIssue.ID ei, title = restIssue.Title ei, labels = restIssue.Labels ei\<rparr> st = (r1, st1) \<and>
     calls (snd (testableMain a P (Inr opts) st)) = calls st1 @ cs \<and>
     updated (snd (testableMain a P (Inr opts) st)) = updated st1 @ ws \<and>
     (r1 \<noteq> None \<longrightarrow> cs = [] \<and> ws = []) \<and>
     (Action (event opts) = ''edited'' \<longrightarrow>
        cs = [] \<and> ws = [] \<and>
        length (updated (snd (testableMain a P (Inr opts) st))) \<le> length (updated st) + 1)"
proof -
  obtain r1 st1 where u: "updateSummaryIssue a P opts (issueOfEvent ei) st = (r1, st1)"
    by (cases "updateSummaryIssue a P opts (issueOfEvent ei) st")
  with assms(3,4) have d: "directUpdate a P opts ei st = (r1, st1)"
    by (simp add: directUpdate_def del: isany.simps)
  from updateSummaryIssue_extends[OF u] obtain newU where
    w: "updated st1 = updated st @ newU" "length newU \<le> 1"
    by blast
  let ?t = "testableMain a P (Inr opts) st"
  have "\<exists>cs ws. calls (snd ?t) = calls st1 @ cs \<and> updated (snd ?t) = updated st1 @ ws \<and>
      (r1 \<noteq> None \<longrightarrow> cs = [] \<and> ws = []) \<and>
      (Action (event opts) = ''edited'' \<longrightarrow> cs = [] \<and> ws = [])"
  proof (cases r1)
    case (Some err)
    with d have "snd ?t = st1"
      by (simp add: testableMain_issues[OF assms(1,2)])
    then show ?thesis
      by simp
  next
    case None
    with d have t: "?t = actionSwitch a P opts ei st1"
      by (simp add: testableMain_issues[OF assms(1,2)])
    from actionSwitch_extends[of a P opts ei st1] t None show ?thesis
      by auto
  qed
  with u w show ?thesis
    by (auto simp: issueOfEvent_def)
qed

theorem direct_update_first_witness:
  "contains (restIssue.Labels exRestSummary) ''summary'' \<and>
   isany (Action (event (exLabeled exRestSummary))) [''edited'', ''labeled'', ''unlabeled'', ''opened''] \<and>
   (\<exists>r1 st1 cs ws.
      updateSummaryIssue exApi exPlatform (exLabeled exRestSummary)
        \<lparr>id' = ''S'', title = ''Weekly'', labels = [lbl ''summary'', lbl ''bug'']\<rparr> st0 = (r1, st1) \<and>
      calls (snd (testableMain exApi exPlatform (Inr (exLabeled exRestSummary)) st0)) = calls st1 @ cs \<and>
      updated (snd (testableMain exApi exPlatform (Inr (exLabeled exRestSummary)) st0)) =
        updated st1 @ ws) \<and>
   Action (event (exEdited exRestSummary)) = ''edited'' \<and>
   (\<exists>r1 st1.
      updateSummaryIssue exApi exPlatform (exEdited exRestSummary)
        \<lparr>id' = ''S'', title = ''Weekly'', labels = [lbl ''summary'', lbl ''bug'']\<rparr> st0 = (r1, st1) \<and>
      calls (snd (testableMain exApi exPlatform (Inr (exEdited exRestSummary)) st0)) = calls st1 \<and>
      updated (snd (testableMain exApi exPlatform (Inr (exEdited exRestSummary)) st0)) = updated st1) \<and>
   (\<exists>r1 st1.
      updateSummaryIssue exApiRefusing exPlatform (exLabeled exRestSummary)
        \<lparr>id' = ''S'', title = ''Weekly'', labels = [lbl ''summary'', lbl ''bug'']\<rparr> st0 = (r1, st1) \<and>
      r1 \<noteq> None \<and>
      calls (snd (testableMain exApiRefusing exPlatform (Inr (exLabeled exRestSummary)) st0)) = calls st1)"
proof -
  let ?opts = "exLabeled exRestSummary"
  let ?optsE = "exEdited exRestSummary"
  let ?si = "\<lparr>id' = ''S'', title = ''Weekly'', labels = [lbl ''summary'', lbl ''bug'']\<rparr>"
  have e: "event.Name (event ?opts) = ''issues''" "Issue (event ?opts) = Some exRestSummary"
    by (simp_all add: exLabeled_def)
  have eE: "event.Name (event ?optsE) = ''issues''" "Issue (event ?optsE) = Some exRestSummary"
    by (simp_all add: exEdited_def)
  have c: "contains (restIssue.Labels exRestSummary) ''summary''"
    by (simp add: exRestSummary_def lbl_def)
  have i: "isany (Action (event ?opts)) [''edited'', ''labeled'', ''unlabeled'', ''opened'']"
    by (simp add: exLabeled_def)
  have iE: "isany (Action (event ?optsE)) [''edited'', ''labeled'', ''unlabeled'', ''opened'']"
    by (simp add: exEdited_def)
  have aE: "Action (event ?optsE) = ''edited''"
    by (simp add: exEdited_def)
  have s: "\<lparr>id' = restIssue.ID exRestSummary, title = restIssue.Title exRestSummary,
            labels = restIssue.Labels exRestSummary\<rparr> = ?si"
    by (simp add: exRestSummary_def)
  have f: "fst (updateSummaryIssue exApiRefusing exPlatform ?opts ?si st0) \<noteq> None"
    by (simp add: run_defs ex_defs exApiRefusing_def)
  have 1: "\<exists>r1 st1 cs ws.
      updateSummaryIssue exApi exPlatform ?opts ?si st0 = (r1, st1) \<and>
      calls (snd (testableMain exApi exPlatform (Inr ?opts) st0)) = calls st1 @ cs \<and>
      updated (snd (testableMain exApi exPlatform (Inr ?opts) st0)) = updated st1 @ ws"
    using direct_update_first[OF e c i, of exApi exPlatform st0] unfolding s by blast
  have 2: "\<exists>r1 st1.
      updateSummaryIssue exApi exPlatform ?optsE ?si st0 = (r1, st1) \<and>
      calls (snd (testableMain exApi exPlatform (Inr ?optsE) st0)) = calls st1 \<and>
      updated (snd (testableMain exApi exPlatform (Inr ?optsE) st0)) = updated st1"
    using direct_update_first[OF eE c iE, of exApi exPlatform st0] aE unfolding s by fastforce
  have 3: "\<exists>r1 st1.
      updateSummaryIssue exApiRefusing exPlatform ?opts ?si st0 = (r1, st1) \<and> r1 \<noteq> None \<and>
      calls (snd (testableMain exApiRefusing exPlatform (Inr ?opts) st0)) = calls st1"
    using direct_update_first[OF e c i, of exApiRefusing exPlatform st0] f unfolding s by fastforce
  from c i aE 1 2 3 show ?thesis
    by blast
qed

section \<open>Heading normalisation: properties\<close>

declare ReplaceAllString.simps [simp del]

lemma h1_headingRe: "h1 = headingRe 1"
  by (simp add: h1_def headingRe_def)

lemma h2_headingRe: "h2 = headingRe 2"
  by (simp add: h2_def headingRe_def numeral_2_eq_2)

lemma isWord_not_hash [simp]: "isWord c \<Longrightarrow> c \<noteq> CHR ''#''"
  by (auto simp: isWord_def)

lemma isWord_not_newline [simp]: "isWord c \<Longrightarrow> c \<noteq> CHR ''\<newline>''"
  by (auto simp: isWord_def)

subsection \<open>The match at one position\<close>

lemma exec_hashes:
  "exec (replicate k (Ch isHash) @ rest) p False cap r =
     (if take k r = replicate k CHR ''#''
      then exec rest (if k = 0 then p else Some CHR ''#'') False cap (drop k r)
      else None)"
proof (induction k arbitrary: p r)
  case 0
  then show ?case by simp
next
  case (Suc k)
  show ?case
  proof (cases r)
    case Nil
    then show ?thesis by simp
  next
    case (Cons c cs)
    then show ?thesis
      using Suc.IH[of "Some c" cs] by (auto simp: isHash_def)
  qed
qed

lemma exec_word_star:
  "exec (Star isWord # Ch isHash # rest) prev False cap s =
   exec (Ch isHash # rest)
     (if takeWhile isWord s = [] then prev else Some (last (takeWhile isWord s)))
     False cap (dropWhile isWord s)"
proof (induction s arbitrary: prev)
  case Nil
  then show ?case by simp
next
  case (Cons c cs)
  show ?case
  proof (cases "isWord c")
    case False
    then show ?thesis by simp
  next
    case True
    then have nh: "\<not> isHash c"
      by (auto simp: isHash_def)
    show ?thesis
      using True nh Cons.IH[of "Some c"]
      by (cases "exec (Ch isHash # rest)
            (if takeWhile isWord cs = [] then Some c else Some (last (takeWhile isWord cs)))
            False cap (dropWhile isWord cs)") auto
  qed
qed

lemma exec_headingRe:
  assumes "0 < k"
  shows "exec (headingRe k) prev False [] s =
     (if prev = None \<or> prev = Some CHR ''\<newline>''
      then (if take k (dropWhile isWord s) = replicate k CHR ''#''
            then exec [Star notHash, Close, Eol] (Some CHR ''#'') True [] (drop k (dropWhile isWord s))
            else None)
      else None)"
proof -
  from assms obtain j where k: "k = Suc j"
    by (cases k) auto
  have "exec (Star isWord # replicate k (Ch isHash) @ [Open, Star notHash, Close, Eol]) prev False [] s =
      exec (replicate k (Ch isHash) @ [Open, Star notHash, Close, Eol])
        (if takeWhile isWord s = [] then prev else Some (last (takeWhile isWord s)))
        False [] (dropWhile isWord s)"
    using exec_word_star[of "replicate j (Ch isHash) @ [Open, Star notHash, Close, Eol]" prev "[]" s]
    by (simp add: k)
  then show ?thesis
    using assms by (simp add: headingRe_def exec_hashes)
qed

lemma exec_tail_sound:
  "exec [Star notHash, Close, Eol] prev True cap s = Some (x, p', rest) \<Longrightarrow>
   \<exists>m. x = cap @ m \<and> s = m @ rest \<and> CHR ''#'' \<notin> set m \<and>
       (rest = [] \<or> hd rest = CHR ''\<newline>'')"
proof (induction s arbitrary: prev cap)
  case Nil
  then show ?case by simp
next
  case (Cons c cs)
  show ?case
  proof (cases "notHash c")
    case False
    with Cons.prems show ?thesis
      by (auto split: if_splits)
  next
    case True
    show ?thesis
    proof (cases "exec [Star notHash, Close, Eol] (Some c) True (cap @ [c]) cs")
      case None
      with True Cons.prems show ?thesis
        by (auto split: if_splits)
    next
      case (Some y)
      with True Cons.prems have "exec [Star notHash, Close, Eol] (Some c) True (cap @ [c]) cs = Some (x, p', rest)"
        by simp
      from Cons.IH[OF this] obtain m where
        "x = (cap @ [c]) @ m" "cs = m @ rest" "CHR ''#'' \<notin> set m" "rest = [] \<or> hd rest = CHR ''\<newline>''"
        by blast
      with True show ?thesis
        by (intro exI[of _ "c # m"]) (simp add: notHash_def)
    qed
  qed
qed

lemma exec_tail_at_eol:
  assumes "ta = [] \<or> hd ta = CHR ''\<newline>''"
  shows "\<exists>m p' rest. exec [Star notHash, Close, Eol] prev True cap ta = Some (cap @ m, p', rest) \<and>
     ta = m @ rest \<and> CHR ''#'' \<notin> set m \<and> (rest = [] \<or> hd rest = CHR ''\<newline>'')"
proof (cases ta)
  case Nil
  then show ?thesis by simp
next
  case (Cons c t)
  with assms have c: "c = CHR ''\<newline>''"
    by simp
  show ?thesis
  proof (cases "exec [Star notHash, Close, Eol] (Some c) True (cap @ [c]) t")
    case None
    with Cons c show ?thesis
      by (intro exI[of _ "[]"]) (simp add: notHash_def)
  next
    case (Some y)
    obtain x p' rest where y: "y = (x, p', rest)"
      by (cases y)
    from Some y c Cons have e: "exec [Star notHash, Close, Eol] prev True cap ta = Some (x, p', rest)"
      by (simp add: notHash_def)
    from exec_tail_sound[OF e] e show ?thesis
      by auto
  qed
qed

lemma exec_tail_line:
  assumes "CHR ''#'' \<notin> set g0" and "ta = [] \<or> hd ta = CHR ''\<newline>''"
  shows "\<exists>m p' rest. exec [Star notHash, Close, Eol] prev True cap (g0 @ ta) = Some (cap @ g0 @ m, p', rest) \<and>
     ta = m @ rest \<and> CHR ''#'' \<notin> set m \<and> (rest = [] \<or> hd rest = CHR ''\<newline>'')"
  using assms(1)
proof (induction g0 arbitrary: prev cap)
  case Nil
  from exec_tail_at_eol[OF assms(2)] show ?case
    by simp
next
  case (Cons c g0)
  then have "CHR ''#'' \<notin> set g0" and c: "notHash c"
    by (auto simp: notHash_def)
  from Cons.IH[OF this(1), of "Some c" "cap @ [c]"] obtain m p' rest where
    "exec [Star notHash, Close, Eol] (Some c) True (cap @ [c]) (g0 @ ta) = Some ((cap @ [c]) @ g0 @ m, p', rest)"
    "ta = m @ rest" "CHR ''#'' \<notin> set m" "rest = [] \<or> hd rest = CHR ''\<newline>''"
    by blast
  with c show ?case
    by (intro exI[of _ m] exI[of _ p'] exI[of _ rest]) simp
qed

lemma exec_tail_hash:
  assumes "CHR ''#'' \<in> set g0" and "CHR ''\<newline>'' \<notin> set g0"
  shows "exec [Star notHash, Close, Eol] prev True cap (g0 @ ta) = None"
  using assms
proof (induction g0 arbitrary: prev cap)
  case Nil
  then show ?case by simp
next
  case (Cons c g0)
  show ?case
  proof (cases "c = CHR ''#''")
    case True
    then show ?thesis
      by (simp add: notHash_def)
  next
    case False
    with Cons.prems have "CHR ''#'' \<in> set g0" "CHR ''\<newline>'' \<notin> set g0" "c \<noteq> CHR ''\<newline>''"
      by auto
    with Cons.IH[of "Some c" "cap @ [c]"] False show ?thesis
      by (simp add: notHash_def)
  qed
qed

subsection \<open>Lines\<close>

lemma splitNL_nonempty [simp]: "splitNL s \<noteq> []"
  by (induction s) (auto split: list.splits)

lemma splitNL_append_newline:
  "splitNL (a @ CHR ''\<newline>'' # b) = splitNL a @ splitNL b"
  by (induction a) (auto split: list.splits)

lemma splitNL_line: "CHR ''\<newline>'' \<notin> set l \<Longrightarrow> splitNL l = [l]"
  by (induction l) auto

lemma splitNL_no_newline: "l \<in> set (splitNL s) \<Longrightarrow> CHR ''\<newline>'' \<notin> set l"
  by (induction s arbitrary: l) (auto split: if_splits list.splits)

lemma splitNL_subset: "l \<in> set (splitNL s) \<Longrightarrow> set l \<subseteq> set s"
proof (induction s arbitrary: l)
  case Nil
  then show ?case by simp
next
  case (Cons c cs)
  obtain l' ls where s: "splitNL cs = l' # ls"
    by (cases "splitNL cs") simp_all
  show ?case
  proof (cases "c = CHR ''\<newline>''")
    case True
    with Cons.prems have "l = [] \<or> l \<in> set (splitNL cs)"
      by simp
    with Cons.IH show ?thesis
      by auto
  next
    case False
    with Cons.prems s have "l = c # l' \<or> l \<in> set ls"
      by simp
    moreover have "set l' \<subseteq> set cs"
      using Cons.IH[of l'] s by simp
    moreover have "l \<in> set ls \<Longrightarrow> set l \<subseteq> set cs"
      using Cons.IH[of l] s by simp
    ultimately show ?thesis
      by auto
  qed
qed

lemma Join_append:
  "xs \<noteq> [] \<Longrightarrow> ys \<noteq> [] \<Longrightarrow> Join (xs @ ys) sep = Join xs sep @ sep @ Join ys sep"
proof (induction xs sep rule: Join.induct)
  case (2 x sep)
  then show ?case by (cases ys) simp_all
qed simp_all

lemma Join_Cons_Cons: "Join ((c # l) # ls) sep = c # Join (l # ls) sep"
  by (cases ls) simp_all

lemma Join_Nil_Cons: "ls \<noteq> [] \<Longrightarrow> Join ([] # ls) sep = sep @ Join ls sep"
  by (cases ls) simp_all

lemma Join_splitNL: "Join (splitNL s) ''\<newline>'' = s"
proof (induction s)
  case Nil
  then show ?case by simp
next
  case (Cons c cs)
  obtain l ls where s: "splitNL cs = l # ls"
    by (cases "splitNL cs") simp_all
  with Cons show ?case
    by (cases "c = CHR ''\<newline>''") (simp_all add: Join_Nil_Cons Join_Cons_Cons)
qed

lemma splitNL_Join:
  "ls \<noteq> [] \<Longrightarrow> \<forall>l \<in> set ls. CHR ''\<newline>'' \<notin> set l \<Longrightarrow> splitNL (Join ls ''\<newline>'') = ls"
proof (induction ls "''\<newline>''" rule: Join.induct)
  case 1
  then show ?case by simp
next
  case (2 x)
  then show ?case by (simp add: splitNL_line)
next
  case (3 x y zs)
  then show ?case
    using splitNL_append_newline[of x "Join (y # zs) ''\<newline>''"] by (simp add: splitNL_line)
qed

lemma mapLines_append_newline:
  "mapLines f (a @ CHR ''\<newline>'' # b) = mapLines f a @ CHR ''\<newline>'' # mapLines f b"
  by (simp add: mapLines_def splitNL_append_newline Join_append)

lemma mapLines_line: "CHR ''\<newline>'' \<notin> set l \<Longrightarrow> mapLines f l = f l"
  by (simp add: mapLines_def splitNL_line)

lemma mapLines_id: "(\<And>l. l \<in> set (splitNL a) \<Longrightarrow> f l = l) \<Longrightarrow> mapLines f a = a"
proof -
  assume "\<And>l. l \<in> set (splitNL a) \<Longrightarrow> f l = l"
  then have "map f (splitNL a) = splitNL a"
    by (simp add: map_idI)
  then show ?thesis
    by (simp add: mapLines_def Join_splitNL)
qed

lemma mapLines_split:
  assumes "CHR ''\<newline>'' \<notin> set l0" and "ta = [] \<or> hd ta = CHR ''\<newline>''"
  shows "mapLines f (l0 @ ta) =
     f l0 @ (case ta of [] \<Rightarrow> [] | c # t \<Rightarrow> CHR ''\<newline>'' # mapLines f t)"
proof (cases ta)
  case Nil
  with assms show ?thesis
    by (simp add: mapLines_line)
next
  case (Cons c t)
  with assms have "c = CHR ''\<newline>''"
    by simp
  with Cons assms show ?thesis
    by (simp add: mapLines_append_newline mapLines_line)
qed

subsection \<open>One line\<close>

lemma demoteLine_no_hash:
  assumes "0 < k" and "CHR ''#'' \<notin> set l"
  shows "demoteLine k l = l"
proof -
  have "take k (dropWhile isWord l) \<noteq> replicate k CHR ''#''"
  proof
    assume e: "take k (dropWhile isWord l) = replicate k CHR ''#''"
    from assms(1) have "CHR ''#'' \<in> set (replicate k CHR ''#'')"
      by simp
    with e have "CHR ''#'' \<in> set (take k (dropWhile isWord l))"
      by simp
    then have "CHR ''#'' \<in> set l"
      using set_take_subset set_dropWhileD by fastforce
    with assms(2) show False
      by simp
  qed
  then show ?thesis
    by (simp add: demoteLine_def)
qed

lemma demoteLine_Nil [simp]: "0 < k \<Longrightarrow> demoteLine k [] = []"
  by (simp add: demoteLine_no_hash)

lemma demoteLine_no_newline:
  "CHR ''\<newline>'' \<notin> set l \<Longrightarrow> CHR ''\<newline>'' \<notin> set (demoteLine k l)"
proof -
  assume n: "CHR ''\<newline>'' \<notin> set l"
  have "set (drop k (dropWhile isWord l)) \<subseteq> set l"
    using set_drop_subset set_dropWhileD by fastforce
  with n show ?thesis
    by (auto simp: demoteLine_def Let_def)
qed

lemma mapLines_keep:
  assumes "0 < k" and "CHR ''#'' \<notin> set m" and "m = [] \<or> hd m = CHR ''\<newline>''"
  shows "(case m of [] \<Rightarrow> [] | c # t \<Rightarrow> CHR ''\<newline>'' # mapLines (demoteLine k) t) = m"
proof (cases m)
  case Nil
  then show ?thesis by simp
next
  case (Cons c t)
  with assms have c: "c = CHR ''\<newline>''" and h: "CHR ''#'' \<notin> set t"
    by auto
  have "mapLines (demoteLine k) t = t"
  proof (rule mapLines_id)
    fix l assume "l \<in> set (splitNL t)"
    from splitNL_subset[OF this] h have "CHR ''#'' \<notin> set l"
      by auto
    with assms(1) show "demoteLine k l = l"
      by (rule demoteLine_no_hash)
  qed
  with Cons c show ?thesis
    by simp
qed

lemma after_append:
  assumes "m = [] \<or> hd m = CHR ''\<newline>''" and "rest = [] \<or> hd rest = CHR ''\<newline>''"
  shows "(case m @ rest of [] \<Rightarrow> [] | c # t \<Rightarrow> CHR ''\<newline>'' # mapLines f t) =
     (case m of [] \<Rightarrow> [] | c # t \<Rightarrow> CHR ''\<newline>'' # mapLines f t) @
     (case rest of [] \<Rightarrow> [] | c # t \<Rightarrow> CHR ''\<newline>'' # mapLines f t)"
proof (cases m)
  case Nil
  then show ?thesis by simp
next
  case m: (Cons c m')
  show ?thesis
  proof (cases rest)
    case Nil
    with m show ?thesis by simp
  next
    case (Cons d t)
    with assms(2) have "d = CHR ''\<newline>''"
      by simp
    with m Cons show ?thesis
      by (simp add: mapLines_append_newline)
  qed
qed

subsection \<open>The match at the start of a line\<close>

lemma dropWhile_word_line:
  "ta = [] \<or> hd ta = CHR ''\<newline>'' \<Longrightarrow> dropWhile isWord (l0 @ ta) = dropWhile isWord l0 @ ta"
proof (induction l0)
  case Nil
  then show ?case
    by (cases ta) (auto simp: isWord_def)
next
  case (Cons c l0)
  then show ?case by simp
qed

lemma take_hashes_line:
  "ta = [] \<or> hd ta = CHR ''\<newline>'' \<Longrightarrow>
   (take k (r0 @ ta) = replicate k CHR ''#'') = (take k r0 = replicate k CHR ''#'')"
proof (induction r0 arbitrary: k)
  case Nil
  then show ?case
    by (cases k; cases ta) auto
next
  case (Cons c r0)
  then show ?case
    by (cases k) auto
qed

lemma take_replicate_length: "take k r = replicate k c \<Longrightarrow> k \<le> length r"
  by (metis length_replicate length_take min.absorb_iff2 min.commute)

lemma exec_headingRe_line:
  assumes "0 < k" and "ta = [] \<or> hd ta = CHR ''\<newline>''"
  shows "exec (headingRe k) prev False [] (l0 @ ta) =
     (if (prev = None \<or> prev = Some CHR ''\<newline>'') \<and>
         take k (dropWhile isWord l0) = replicate k CHR ''#''
      then exec [Star notHash, Close, Eol] (Some CHR ''#'') True []
             (drop k (dropWhile isWord l0) @ ta)
      else None)"
proof -
  have 1: "dropWhile isWord (l0 @ ta) = dropWhile isWord l0 @ ta"
    by (rule dropWhile_word_line[OF assms(2)])
  have 2: "(take k (dropWhile isWord l0 @ ta) = replicate k CHR ''#'') =
      (take k (dropWhile isWord l0) = replicate k CHR ''#'')"
    by (rule take_hashes_line[OF assms(2)])
  have 3: "drop k (dropWhile isWord l0 @ ta) = drop k (dropWhile isWord l0) @ ta"
    if "take k (dropWhile isWord l0) = replicate k CHR ''#''"
    using take_replicate_length[OF that] by simp
  show ?thesis
    unfolding exec_headingRe[OF assms(1)] 1 2 using 3 by auto
qed

lemma exec_line_fires:
  assumes "0 < k" and "prev = None \<or> prev = Some CHR ''\<newline>''"
    and "ta = [] \<or> hd ta = CHR ''\<newline>''"
    and "take k (dropWhile isWord l0) = replicate k CHR ''#''"
    and "CHR ''#'' \<notin> set (drop k (dropWhile isWord l0))"
  shows "\<exists>m p' rest. exec (headingRe k) prev False [] (l0 @ ta) =
       Some (drop k (dropWhile isWord l0) @ m, p', rest) \<and>
     ta = m @ rest \<and> CHR ''#'' \<notin> set m \<and> (rest = [] \<or> hd rest = CHR ''\<newline>'')"
  using exec_tail_line[OF assms(5,3), of "Some CHR ''#''" "[]"] assms(2,4)
  unfolding exec_headingRe_line[OF assms(1,3)] by auto

lemma exec_line_stays:
  assumes "0 < k" and "CHR ''\<newline>'' \<notin> set l0" and "ta = [] \<or> hd ta = CHR ''\<newline>''"
    and "\<not> (take k (dropWhile isWord l0) = replicate k CHR ''#'' \<and>
           CHR ''#'' \<notin> set (drop k (dropWhile isWord l0)))"
  shows "exec (headingRe k) prev False [] (l0 @ ta) = None"
proof (cases "take k (dropWhile isWord l0) = replicate k CHR ''#''")
  case False
  then show ?thesis
    unfolding exec_headingRe_line[OF assms(1,3)] by simp
next
  case True
  with assms(4) have h: "CHR ''#'' \<in> set (drop k (dropWhile isWord l0))"
    by simp
  have "set (drop k (dropWhile isWord l0)) \<subseteq> set l0"
    using set_drop_subset set_dropWhileD by fastforce
  with assms(2) have n: "CHR ''\<newline>'' \<notin> set (drop k (dropWhile isWord l0))"
    by auto
  from exec_tail_hash[OF h n, of "Some CHR ''#''" "[]" ta] show ?thesis
    unfolding exec_headingRe_line[OF assms(1,3)] by simp
qed

subsection \<open>The scan\<close>

lemma ReplaceAll_no_match:
  "exec re prev False [] (c # cs) = None \<Longrightarrow>
   ReplaceAllString re prev adj (c # cs) = c # ReplaceAllString re (Some c) False cs"
  by (subst ReplaceAllString.simps) simp

lemma ReplaceAll_no_match_Nil:
  "exec re prev False [] [] = None \<Longrightarrow> ReplaceAllString re prev adj [] = []"
  by (subst ReplaceAllString.simps) simp

lemma ReplaceAll_match:
  "exec re prev False [] s = Some (cap, p', rest) \<Longrightarrow> length rest < length s \<Longrightarrow>
   ReplaceAllString re prev adj s = expand cap @ ReplaceAllString re p' True rest"
  by (subst ReplaceAllString.simps) simp

lemma ReplaceAll_empty:
  "0 < k \<Longrightarrow> ReplaceAllString (headingRe k) prev adj [] = []"
  by (rule ReplaceAll_no_match_Nil) (simp add: exec_headingRe)

lemma ReplaceAll_newline:
  assumes "0 < k"
  shows "ReplaceAllString (headingRe k) prev adj (CHR ''\<newline>'' # t) =
     CHR ''\<newline>'' # ReplaceAllString (headingRe k) (Some CHR ''\<newline>'') False t"
proof (rule ReplaceAll_no_match)
  from assms obtain j where "k = Suc j"
    by (cases k) auto
  then show "exec (headingRe k) prev False [] (CHR ''\<newline>'' # t) = None"
    by (simp add: exec_headingRe isWord_def)
qed

lemma ReplaceAll_lines:
  assumes k: "0 < k"
  shows "ReplaceAllString (headingRe k) prev adj s =
     (if prev = None \<or> prev = Some CHR ''\<newline>'' then mapLines (demoteLine k) s
      else takeWhile (\<lambda>c. c \<noteq> CHR ''\<newline>'') s @
           (case dropWhile (\<lambda>c. c \<noteq> CHR ''\<newline>'') s of
              [] \<Rightarrow> []
            | c # t \<Rightarrow> CHR ''\<newline>'' # mapLines (demoteLine k) t))"
proof (induction s arbitrary: prev adj rule: length_induct)
  case (1 s)
  let ?f = "demoteLine k"
  let ?R = "ReplaceAllString (headingRe k)"
  let ?after = "\<lambda>ta. case ta of [] \<Rightarrow> [] | c # t \<Rightarrow> CHR ''\<newline>'' # mapLines ?f t"
  let ?l0 = "takeWhile (\<lambda>c. c \<noteq> CHR ''\<newline>'') s"
  let ?ta = "dropWhile (\<lambda>c. c \<noteq> CHR ''\<newline>'') s"
  let ?r0 = "dropWhile isWord ?l0"
  have s: "?l0 @ ?ta = s"
    by simp
  have n: "CHR ''\<newline>'' \<notin> set ?l0"
    by (auto dest: set_takeWhileD)
  have e: "?ta = [] \<or> hd ?ta = CHR ''\<newline>''"
    using hd_dropWhile[of "\<lambda>c. c \<noteq> CHR ''\<newline>''" s] by auto
  have IH: "?R p a t =
     (if p = None \<or> p = Some CHR ''\<newline>'' then mapLines ?f t
      else takeWhile (\<lambda>c. c \<noteq> CHR ''\<newline>'') t @ ?after (dropWhile (\<lambda>c. c \<noteq> CHR ''\<newline>'') t))"
    if "length t < length s" for p a t
    using 1 that by blast
  have IHeol: "?R p a rest = ?after rest"
    if "length rest < length s" and "rest = [] \<or> hd rest = CHR ''\<newline>''" for p a rest
  proof (cases rest)
    case Nil
    with k show ?thesis
      by (simp add: ReplaceAll_empty)
  next
    case (Cons c t)
    with that have "c = CHR ''\<newline>''" and "length t < length s"
      by auto
    with Cons k IH[of t "Some CHR ''\<newline>''" False] show ?thesis
      by (simp add: ReplaceAll_newline)
  qed
  have rhs: "mapLines ?f s = ?f ?l0 @ ?after ?ta"
    using mapLines_split[OF n e, of ?f] by simp
  have step: "?R prev adj s = ?l0 @ ?after ?ta"
    if none: "exec (headingRe k) prev False [] s = None"
  proof (cases s)
    case Nil
    with k show ?thesis
      by (simp add: ReplaceAll_empty)
  next
    case (Cons c cs)
    with none have r: "?R prev adj s = c # ?R (Some c) False cs"
      by (simp add: ReplaceAll_no_match)
    show ?thesis
    proof (cases "c = CHR ''\<newline>''")
      case True
      with r Cons IH[of cs "Some c" False] show ?thesis
        by simp
    next
      case False
      with r Cons IH[of cs "Some c" False] show ?thesis
        by simp
    qed
  qed
  show ?case
  proof (cases "prev = None \<or> prev = Some CHR ''\<newline>''")
    case False
    with k have "exec (headingRe k) prev False [] s = None"
      by (auto simp: exec_headingRe)
    from step[OF this] False show ?thesis
      by auto
  next
    case True
    show ?thesis
    proof (cases "take k ?r0 = replicate k CHR ''#'' \<and> CHR ''#'' \<notin> set (drop k ?r0)")
      case fires: True
      then have t: "take k ?r0 = replicate k CHR ''#''" and h: "CHR ''#'' \<notin> set (drop k ?r0)"
        by simp_all
      from exec_line_fires[OF k True e t h] s obtain m p' rest where
        ex: "exec (headingRe k) prev False [] s = Some (drop k ?r0 @ m, p', rest)"
        and ta: "?ta = m @ rest" and hm: "CHR ''#'' \<notin> set m"
        and er: "rest = [] \<or> hd rest = CHR ''\<newline>''"
        by auto
      have l0: "0 < length ?l0"
        using take_replicate_length[OF t] k length_dropWhile_le[of isWord ?l0] by linarith
      have "length s = length (?l0 @ m @ rest)"
        using s ta by simp
      with l0 have len: "length rest < length s"
        by simp
      from e ta have em: "m = [] \<or> hd m = CHR ''\<newline>''"
        by (cases m) auto
      have "?R prev adj s = expand (drop k ?r0 @ m) @ ?R p' True rest"
        by (rule ReplaceAll_match[OF ex len])
      also have "\<dots> = ''###'' @ drop k ?r0 @ m @ ?after rest"
        using IHeol[OF len er] by (simp add: expand_def)
      finally have l: "?R prev adj s = ''###'' @ drop k ?r0 @ m @ ?after rest" .
      have f: "?f ?l0 = ''###'' @ drop k ?r0"
        using fires by (simp add: demoteLine_def)
      have "?after ?ta = ?after m @ ?after rest"
        unfolding ta by (rule after_append[OF em er])
      also have "?after m = m"
        by (rule mapLines_keep[OF k hm em])
      finally have "?after ?ta = m @ ?after rest" .
      with l f rhs True show ?thesis
        by simp
    next
      case stays: False
      from exec_line_stays[OF k n e stays] s
      have "exec (headingRe k) prev False [] s = None"
        by simp
      from step[OF this] have "?R prev adj s = ?l0 @ ?after ?ta" .
      moreover have "?f ?l0 = ?l0"
        using stays by (auto simp: demoteLine_def)
      ultimately show ?thesis
        using rhs True by simp
    qed
  qed
qed

subsection \<open>The whole function\<close>

lemma splitNL_mapLines:
  assumes "\<And>l. CHR ''\<newline>'' \<notin> set l \<Longrightarrow> CHR ''\<newline>'' \<notin> set (g l)"
  shows "splitNL (mapLines g s) = map g (splitNL s)"
proof -
  have "\<forall>l \<in> set (map g (splitNL s)). CHR ''\<newline>'' \<notin> set l"
    using assms splitNL_no_newline by auto
  then show ?thesis
    unfolding mapLines_def by (intro splitNL_Join) simp_all
qed

lemma mapLines_mapLines:
  assumes "\<And>l. CHR ''\<newline>'' \<notin> set l \<Longrightarrow> CHR ''\<newline>'' \<notin> set (g l)"
  shows "mapLines f (mapLines g s) = mapLines (\<lambda>l. f (g l)) s"
  using splitNL_mapLines[of g s, OF assms] by (simp add: mapLines_def comp_def)

text \<open>
  \<open>replaceHeadings\<close> works line by line: each line goes through the pattern with two
  hash signs and then through the pattern with one.
\<close>

lemma replaceHeadings_lines:
  "replaceHeadings s = mapLines (\<lambda>l. demoteLine 1 (demoteLine 2 l)) s"
proof -
  have "replaceHeadings s = mapLines (demoteLine 1) (mapLines (demoteLine 2) s)"
    by (simp add: replaceHeadings_def h1_headingRe h2_headingRe ReplaceAll_lines)
  then show ?thesis
    by (simp add: mapLines_mapLines demoteLine_no_newline)
qed

lemma demoteLine_fires:
  assumes "0 < k" and "CHR ''#'' \<notin> set r"
  shows "demoteLine k (replicate k CHR ''#'' @ r) = ''###'' @ r"
proof -
  from assms(1) obtain j where "k = Suc j"
    by (cases k) auto
  then have "dropWhile isWord (replicate k CHR ''#'' @ r) = replicate k CHR ''#'' @ r"
    by (auto simp: isWord_def)
  with assms(2) show ?thesis
    by (simp add: demoteLine_def)
qed

lemma demoteLine_cases:
  "demoteLine k l = l \<or> (\<exists>r. CHR ''#'' \<notin> set r \<and> demoteLine k l = ''###'' @ r)"
  by (auto simp: demoteLine_def Let_def)

lemma demoteLine_1_level3:
  "CHR ''#'' \<notin> set r \<Longrightarrow> demoteLine 1 (''###'' @ r) = ''###'' @ r"
  by (simp add: demoteLine_def isWord_def)

lemma demoteLine_2_level3:
  "CHR ''#'' \<notin> set r \<Longrightarrow> demoteLine 2 (''###'' @ r) = ''###'' @ r"
  by (simp add: demoteLine_def isWord_def numeral_2_eq_2)

lemma demoteLine_no_word_prefix:
  assumes "l = [] \<or> \<not> isWord (hd l)" and "demoteLine k l \<noteq> l"
  shows "\<exists>r. l = replicate k CHR ''#'' @ r \<and> CHR ''#'' \<notin> set r"
proof -
  from assms(1) have d: "dropWhile isWord l = l"
    by (cases l) auto
  from assms(2) have "take k l = replicate k CHR ''#''" and h: "CHR ''#'' \<notin> set (drop k l)"
    unfolding demoteLine_def Let_def d by (auto split: if_splits)
  then have "l = replicate k CHR ''#'' @ drop k l"
    by (metis append_take_drop_id)
  with h show ?thesis
    by blast
qed

lemma demote_twice:
  "demoteLine 1 (demoteLine 2 (demoteLine 1 (demoteLine 2 l))) = demoteLine 1 (demoteLine 2 l)"
proof -
  have level3: "demoteLine 1 (demoteLine 2 (''###'' @ r)) = ''###'' @ r"
    if "CHR ''#'' \<notin> set r" for r
    by (simp only: demoteLine_1_level3[OF that] demoteLine_2_level3[OF that])
  have stable: ?thesis if "demoteLine 1 (demoteLine 2 l) = ''###'' @ r" and "CHR ''#'' \<notin> set r" for r
    by (simp only: that(1) level3[OF that(2)])
  from demoteLine_cases[of 2 l] show ?thesis
  proof
    assume s2: "demoteLine 2 l = l"
    from demoteLine_cases[of 1 l] show ?thesis
    proof
      assume "demoteLine 1 l = l"
      then show ?thesis
        by (simp only: s2)
    next
      assume "\<exists>r. CHR ''#'' \<notin> set r \<and> demoteLine 1 l = ''###'' @ r"
      then obtain r where r: "CHR ''#'' \<notin> set r" "demoteLine 1 l = ''###'' @ r"
        by blast
      have "demoteLine 1 (demoteLine 2 l) = ''###'' @ r"
        by (simp only: s2 r(2))
      from stable[OF this r(1)] show ?thesis .
    qed
  next
    assume "\<exists>r. CHR ''#'' \<notin> set r \<and> demoteLine 2 l = ''###'' @ r"
    then obtain r where r: "CHR ''#'' \<notin> set r" "demoteLine 2 l = ''###'' @ r"
      by blast
    have "demoteLine 1 (demoteLine 2 l) = ''###'' @ r"
      by (simp only: r(2) demoteLine_1_level3[OF r(1)])
    from stable[OF this r(1)] show ?thesis .
  qed
qed

text \<open>
  C2: every line that is a level-1 or level-2 heading should become a level-3 heading,
  and every other line should stay. The code misses this on two kinds of lines. The
  patterns start with \<open>\w*\<close>: word characters standing before the hash signs
  belong to the match and are dropped by the replacement, so a line that is no heading,
  \<open>issue#12 closed\<close>, is turned into the heading \<open>###12 closed\<close>. The patterns
  end with \<open>([^#]*)$\<close>: a heading whose text holds a hash sign, \<open># Fix for #12\<close>,
  is not matched and stays a level-1 heading.
\<close>

theorem replaceHeadings_misses:
  "replaceHeadings ''issue#12 closed'' = ''###12 closed'' \<and>
   replaceHeadings ''# Fix for #12'' = ''# Fix for #12''"
  by (simp add: replaceHeadings_def h1_def h2_def isWord_def isHash_def notHash_def expand_def
      ReplaceAllString.simps)

text \<open>
  What \<open>replaceHeadings\<close> does on the lines where it works as documented: it applies
  the level-2 pattern and then the level-1 pattern, and the result is the input
  rewritten line by line (lines are separated by newlines) by one function \<open>F\<close> of the
  line. A line made of one or two hash signs and a rest without hash sign becomes
  \<open>###\<close> and that rest; a line without hash sign stays; a line that does not begin
  with a word character and is not of that form stays. The text
  \<open># Title\ntext\n## Sub\<close> becomes \<open>### Title\ntext\n### Sub\<close>.
\<close>

lemma replaceHeadings_by_line:
  "replaceHeadings s = ReplaceAllString h1 None True (ReplaceAllString h2 None True s) \<and>
   (\<exists>F. (\<forall>s. splitNL (replaceHeadings s) = map F (splitNL s)) \<and>
        (\<forall>r. CHR ''#'' \<notin> set r \<longrightarrow> F (''#'' @ r) = ''###'' @ r \<and> F (''##'' @ r) = ''###'' @ r) \<and>
        (\<forall>l. CHR ''#'' \<notin> set l \<longrightarrow> F l = l) \<and>
        (\<forall>l. (l = [] \<or> \<not> isWord (hd l)) \<and>
             \<not> (\<exists>r. (l = ''#'' @ r \<or> l = ''##'' @ r) \<and> CHR ''#'' \<notin> set r) \<longrightarrow> F l = l)) \<and>
   replaceHeadings ''# Title\<newline>text\<newline>## Sub'' = ''### Title\<newline>text\<newline>### Sub''"
proof (intro conjI)
  show "replaceHeadings s = ReplaceAllString h1 None True (ReplaceAllString h2 None True s)"
    by (simp add: replaceHeadings_def)
next
  let ?F = "\<lambda>l. demoteLine 1 (demoteLine 2 l)"
  have a: "\<forall>s. splitNL (replaceHeadings s) = map ?F (splitNL s)"
    by (simp add: replaceHeadings_lines splitNL_mapLines demoteLine_no_newline)
  have b: "?F (''#'' @ r) = ''###'' @ r \<and> ?F (''##'' @ r) = ''###'' @ r" if r: "CHR ''#'' \<notin> set r" for r
  proof
    have "demoteLine 2 (''#'' @ r) = ''#'' @ r"
      using r by (cases r) (auto simp: demoteLine_def isWord_def numeral_2_eq_2)
    moreover have "demoteLine 1 (''#'' @ r) = ''###'' @ r"
      using demoteLine_fires[of 1 r] r by simp
    ultimately show "?F (''#'' @ r) = ''###'' @ r"
      by simp
    have "demoteLine 2 (''##'' @ r) = ''###'' @ r"
      using demoteLine_fires[of 2 r] r by (simp add: numeral_2_eq_2)
    then show "?F (''##'' @ r) = ''###'' @ r"
      using demoteLine_1_level3[OF r] by (simp only:)
  qed
  have c: "?F l = l" if "CHR ''#'' \<notin> set l" for l
    using that by (simp add: demoteLine_no_hash)
  have d: "?F l = l"
    if w: "l = [] \<or> \<not> isWord (hd l)"
      and nf: "\<not> (\<exists>r. (l = ''#'' @ r \<or> l = ''##'' @ r) \<and> CHR ''#'' \<notin> set r)" for l
  proof -
    have 2: "demoteLine 2 l = l"
    proof (rule ccontr)
      assume "demoteLine 2 l \<noteq> l"
      from demoteLine_no_word_prefix[OF w this] nf show False
        by (auto simp: numeral_2_eq_2)
    qed
    have 1: "demoteLine 1 l = l"
    proof (rule ccontr)
      assume "demoteLine 1 l \<noteq> l"
      from demoteLine_no_word_prefix[OF w this] nf show False
        by auto
    qed
    from 1 2 show ?thesis
      by simp
  qed
  from a b c d
  show "\<exists>F. (\<forall>s. splitNL (replaceHeadings s) = map F (splitNL s)) \<and>
        (\<forall>r. CHR ''#'' \<notin> set r \<longrightarrow> F (''#'' @ r) = ''###'' @ r \<and> F (''##'' @ r) = ''###'' @ r) \<and>
        (\<forall>l. CHR ''#'' \<notin> set l \<longrightarrow> F l = l) \<and>
        (\<forall>l. (l = [] \<or> \<not> isWord (hd l)) \<and>
             \<not> (\<exists>r. (l = ''#'' @ r \<or> l = ''##'' @ r) \<and> CHR ''#'' \<notin> set r) \<longrightarrow> F l = l)"
    by (intro exI[of _ ?F]) blast
next
  show "replaceHeadings ''# Title\<newline>text\<newline>## Sub'' = ''### Title\<newline>text\<newline>### Sub''"
    by (simp add: replaceHeadings_lines mapLines_def demoteLine_def isWord_def numeral_2_eq_2)
qed

text \<open>
  C10: \<open>replaceHeadings\<close> is idempotent: a second pass changes nothing, since the
  level-3 headings the first pass writes are matched by neither pattern.
\<close>

theorem replaceHeadings_idempotent:
  "replaceHeadings (replaceHeadings s) = replaceHeadings s"
proof -
  let ?F = "\<lambda>l. demoteLine 1 (demoteLine 2 l)"
  have "replaceHeadings (replaceHeadings s) = mapLines ?F (mapLines ?F s)"
    by (simp only: replaceHeadings_lines)
  also have "\<dots> = mapLines (\<lambda>l. ?F (?F l)) s"
    by (rule mapLines_mapLines) (simp add: demoteLine_no_newline)
  also have "\<dots> = mapLines ?F s"
    by (simp only: demote_twice)
  finally show ?thesis
    by (simp only: replaceHeadings_lines)
qed

theorem replaceHeadings_idempotent_witness:
  "replaceHeadings ''# Title\<newline>text\<newline>## Sub'' = ''### Title\<newline>text\<newline>### Sub'' \<and>
   replaceHeadings ''### Title\<newline>text\<newline>### Sub'' = ''### Title\<newline>text\<newline>### Sub''"
proof -
  have e: "replaceHeadings ''# Title\<newline>text\<newline>## Sub'' = ''### Title\<newline>text\<newline>### Sub''"
    by (simp add: replaceHeadings_lines mapLines_def demoteLine_def isWord_def numeral_2_eq_2)
  from replaceHeadings_idempotent[of "''# Title\<newline>text\<newline>## Sub''"] e show ?thesis
    by simp
qed

end
